theory Spec2Isabelle
  imports Main
begin

section \<open>Data model of the editor (src/src/editor.js)\<close>

text \<open>
  JavaScript values, as far as the editor inspects them: the argument of
  \<^verbatim>\<open>getData\<close> is compared with \<^verbatim>\<open>false\<close> by \<^verbatim>\<open>===\<close>, and
  \<^verbatim>\<open>options.defaultType\<close> is compared with \<^verbatim>\<open>false\<close> by \<^verbatim>\<open>!==\<close>.
\<close>

datatype jsval = JUndefined | JNull | JBool bool | JNum int | JStr string

text \<open>The exceptions the modelled calls can throw.\<close>

datatype js_error = TypeError | HierarchyRequestError

text \<open>A plain data object: its own properties in insertion order; \<^verbatim>\<open>{}\<close> is the empty list.\<close>

type_synonym jsobj = "(string \<times> string) list"

text \<open>A store entry \<^verbatim>\<open>{type, data}\<close>, which is also what a block's \<^verbatim>\<open>getData()\<close> returns.\<close>

record block_data =
  bd_type :: string
  bd_data :: jsobj

text \<open>
  A block instance as the editor uses it: \<^verbatim>\<open>block.blockID\<close>, the outcome of
  \<^verbatim>\<open>block.valid()\<close>, the value of \<^verbatim>\<open>_.result(block, 'validationFailMsg')\<close> and
  the outcome of \<^verbatim>\<open>block.getData()\<close>.
\<close>

record block =
  blockID :: string
  valid :: bool
  validationFailMsg :: string
  block_getData :: block_data

text \<open>
  A node inside \<^verbatim>\<open>this.wrapper\<close>. Two nodes are the same node (\<^verbatim>\<open>===\<close>) when
  they are equal as records; \<open>node_ref\<close> tells apart nodes that agree on their attributes.
  \<open>st_block\<close> says whether the node carries the class \<^verbatim>\<open>st-block\<close>, and
  \<open>id_attr\<close> is \<^verbatim>\<open>getAttribute('id')\<close>, \<open>None\<close> for \<^verbatim>\<open>null\<close>.
\<close>

record dom_node =
  node_ref :: nat
  st_block :: bool
  id_attr :: "string option"

text \<open>A queued item \<^verbatim>\<open>{name, deferred}\<close>; the deferred is the address of a promise.\<close>

record queued_item =
  qi_name :: string
  deferred :: nat

text \<open>
  The part of the block manager the editor reads. \<^verbatim>\<open>block_manager.blocks\<close> is a
  reference to an array object, so the arrays live in a store (\<open>arrays\<close>, by address) and
  \<open>blocks\<close> holds the address the property currently points to.
\<close>

record registry =
  arrays :: "nat \<Rightarrow> block list"
  blocks :: nat
  queuedItems :: "queued_item list"

text \<open>The events the editor triggers on its mediator.\<close>

datatype event =
    Initialize
  | BlockCreate jsval jsobj
  | BlockRemove string
  | Destroy
  | ErrorsAdd string
  | ErrorsReset
  | ErrorsRender

text \<open>
  The calls the editor makes on its collaborators, in the order it makes them. The trace
  is a ghost field: it records the order of effects and the code never reads it.
\<close>

datatype action =
    Trigger event
  | BlockValid string
  | BlockGetData string
  | StoreReset
  | StoreAddData block_data
  | ValidateBlockTypesExist bool
  | FormatBarDestroy
  | FlBlockControlsDestroy
  | BlockControlsDestroy
  | MediatorStopListening
  | StopListening
  | DomReplaceWith
  | BlockControlsHide
  | FormatBarHide

text \<open>
  One editor instance. \<open>wrapper\<close> holds the nodes inside \<^verbatim>\<open>this.wrapper\<close> in document
  order, and \<open>nesting\<close> how deep each lies below it: 0 for a child of the wrapper, 1
  for a child of such a child. The last four fields are parameters: they stand for collaborators
  whose code is not part of editor.js (the store's serializer, the block manager's
  type check and its handlers of \<^verbatim>\<open>block:create\<close> and \<^verbatim>\<open>block:remove\<close>).
\<close>

record editor =
  skipValidation :: bool
  defaultType :: jsval
  wrapper :: "dom_node list"
  nesting :: "dom_node \<Rightarrow> nat"
  block_manager :: registry
  store :: "block_data list"
  errors :: "string list"
  trace :: "action list"
  serialize :: "block_data list \<Rightarrow> string"
  typeErrors :: "bool \<Rightarrow> string list"
  createBlock :: "jsval \<Rightarrow> jsobj \<Rightarrow> registry \<Rightarrow> registry"
  removeBlock :: "string \<Rightarrow> registry \<Rightarrow> registry"

text \<open>The result object \<^verbatim>\<open>{data, errors, canSubmit}\<close> of \<^verbatim>\<open>getData\<close>.\<close>

record result =
  r_data :: string
  r_errors :: nat
  r_canSubmit :: bool

section \<open>Collaborators\<close>

definition act :: "action \<Rightarrow> editor \<Rightarrow> editor" where
  "act a e = e\<lparr>trace := trace e @ [a]\<rparr>"

text \<open>
  Modelled from the spec: the error handler (error-handler.js is not under src/)
  "accumulates validation failure messages for the current validation pass", is "fully
  cleared at the start of the next pass (\<^verbatim>\<open>errors:reset\<close>)" and "exposes a count".
  The block manager's handlers of \<^verbatim>\<open>block:create\<close> and \<^verbatim>\<open>block:remove\<close> are the
  parameters \<open>createBlock\<close> and \<open>removeBlock\<close>; they act on the registry.
\<close>

fun dispatch :: "event \<Rightarrow> editor \<Rightarrow> editor" where
  "dispatch (ErrorsAdd t) e = e\<lparr>errors := errors e @ [t]\<rparr>"
| "dispatch ErrorsReset e = e\<lparr>errors := []\<rparr>"
| "dispatch (BlockCreate ty d) e = e\<lparr>block_manager := createBlock e ty d (block_manager e)\<rparr>"
| "dispatch (BlockRemove i) e = e\<lparr>block_manager := removeBlock e i (block_manager e)\<rparr>"
| "dispatch ErrorsRender e = e"
| "dispatch Initialize e = e"
| "dispatch Destroy e = e"

text \<open>\<^verbatim>\<open>this.mediator.trigger(ev)\<close>: the event is published, then its handlers run.\<close>

definition trigger :: "event \<Rightarrow> editor \<Rightarrow> editor" where
  "trigger ev e = dispatch ev (act (Trigger ev) e)"

text \<open>
  Modelled from the spec: the data store (extensions/editor-store.js is not under src/)
  "supports reset, incremental append, and full-string serialization".
\<close>

definition store_reset :: "editor \<Rightarrow> editor" where
  "store_reset e = (act StoreReset e)\<lparr>store := []\<rparr>"

definition store_addData :: "block_data \<Rightarrow> editor \<Rightarrow> editor" where
  "store_addData d e = (act (StoreAddData d) e)\<lparr>store := store e @ [d]\<rparr>"

definition store_toString :: "editor \<Rightarrow> string" where
  "store_toString e = serialize e (store e)"

text \<open>The array \<^verbatim>\<open>block_manager.blocks\<close> points to.\<close>

definition bm_blocks :: "editor \<Rightarrow> block list" where
  "bm_blocks e = arrays (block_manager e) (blocks (block_manager e))"

text \<open>
  Modelled from the spec: the block manager's \<^verbatim>\<open>findBlockById\<close> (block-manager.js is
  not under src/) "looks them up by id"; the result is \<open>None\<close> for \<^verbatim>\<open>undefined\<close>. An
  element without an id attribute (\<^verbatim>\<open>null\<close>) matches no block.
\<close>

definition bm_findBlockById :: "string option \<Rightarrow> registry \<Rightarrow> block option" where
  "bm_findBlockById block_id r =
     (case block_id of
        None \<Rightarrow> None
      | Some i \<Rightarrow> find (\<lambda>b. blockID b = i) (arrays r (blocks r)))"

text \<open>
  The block manager's \<^verbatim>\<open>validateBlockTypesExist(shouldValidate)\<close> is not under src/: it
  is the parameter \<open>typeErrors\<close>, the texts of the \<^verbatim>\<open>errors:add\<close> events it triggers.
\<close>

definition bm_validateBlockTypesExist :: "bool \<Rightarrow> editor \<Rightarrow> editor" where
  "bm_validateBlockTypesExist shouldValidate e =
     fold (\<lambda>t. trigger (ErrorsAdd t)) (typeErrors e shouldValidate)
       (act (ValidateBlockTypesExist shouldValidate) e)"

section \<open>The validate-and-serialize pass\<close>

text \<open>\<^verbatim>\<open>this.wrapper.querySelectorAll('.st-block')\<close>: a static list, in document order.\<close>

definition querySelectorAll :: "editor \<Rightarrow> dom_node list" where
  "querySelectorAll e = filter st_block (wrapper e)"

definition findBlockById :: "string option \<Rightarrow> editor \<Rightarrow> block option" where
  "findBlockById block_id e = bm_findBlockById block_id (block_manager e)"

definition getBlockQueuedItems :: "editor \<Rightarrow> queued_item list" where
  "getBlockQueuedItems e = queuedItems (block_manager e)"

text \<open>
  \<^verbatim>\<open>if ((!config.skipValidation || shouldValidate) && !block.valid()) { errors:add; return; }\<close>
  then \<^verbatim>\<open>this.store.addData(block.getData())\<close>. The \<^verbatim>\<open>&&\<close> calls
  \<^verbatim>\<open>block.valid()\<close> only when its left operand is true.
\<close>

definition saveBlock :: "block \<Rightarrow> editor \<Rightarrow> editor" where
  "saveBlock b e = store_addData (block_getData b) (act (BlockGetData (blockID b)) e)"

definition validateAndSaveBlock :: "block \<Rightarrow> bool \<Rightarrow> editor \<Rightarrow> editor" where
  "validateAndSaveBlock b shouldValidate e =
     (if \<not> skipValidation e \<or> shouldValidate then
        (let e1 = act (BlockValid (blockID b)) e in
         if \<not> valid b then trigger (ErrorsAdd (validationFailMsg b)) e1
         else saveBlock b e1)
      else saveBlock b e)"

fun validateBlocks_loop :: "dom_node list \<Rightarrow> bool \<Rightarrow> editor \<Rightarrow> editor" where
  "validateBlocks_loop [] shouldValidate e = e"
| "validateBlocks_loop (n # ns) shouldValidate e =
     validateBlocks_loop ns shouldValidate
       (case findBlockById (id_attr n) e of
          None \<Rightarrow> e
        | Some b \<Rightarrow> validateAndSaveBlock b shouldValidate e)"

definition validateBlocks :: "bool \<Rightarrow> editor \<Rightarrow> editor" where
  "validateBlocks shouldValidate e = validateBlocks_loop (querySelectorAll e) shouldValidate e"

text \<open>
  \<^verbatim>\<open>!(a || b)\<close> on two array lengths: \<^verbatim>\<open>a || b\<close> is \<open>a\<close> unless \<open>a\<close> is 0, and
  \<^verbatim>\<open>!\<close> of a number is true exactly for 0.
\<close>

definition js_or :: "nat \<Rightarrow> nat \<Rightarrow> nat" where
  "js_or a b = (if a \<noteq> 0 then a else b)"

definition js_not :: "nat \<Rightarrow> bool" where
  "js_not a = (a = 0)"

definition getData :: "jsval \<Rightarrow> editor \<Rightarrow> result \<times> editor" where
  "getData v e =
     (let shouldValidate = (if v = JBool False then False else True);
          e1 = trigger ErrorsReset e;
          e2 = store_reset e1;
          e3 = validateBlocks shouldValidate e2;
          e4 = bm_validateBlockTypesExist shouldValidate e3;
          e5 = trigger ErrorsRender e4
      in (\<lparr>r_data = store_toString e5,
           r_errors = length (errors e5),
           r_canSubmit = js_not (js_or (length (errors e5)) (length (getBlockQueuedItems e5)))\<rparr>,
          e5))"

section \<open>Creating the initial blocks\<close>

text \<open>
  Modelled from the spec: \<^verbatim>\<open>store.retrieve()\<close> (editor-store.js is not under src/)
  "reads the current store snapshot", whose \<^verbatim>\<open>data\<close> is the list of persisted
  entries; here it is the field \<open>store\<close>. \<^verbatim>\<open>store.data.forEach\<close> triggers
  \<^verbatim>\<open>block:create\<close> with \<^verbatim>\<open>block.type\<close> and \<^verbatim>\<open>block.data\<close>.
\<close>

fun createBlocks_loop :: "block_data list \<Rightarrow> editor \<Rightarrow> editor" where
  "createBlocks_loop [] e = e"
| "createBlocks_loop (b # bs) e =
     createBlocks_loop bs (trigger (BlockCreate (JStr (bd_type b)) (bd_data b)) e)"

definition createBlocks :: "editor \<Rightarrow> editor" where
  "createBlocks e =
     (let st = store e in
      if length st > 0 then createBlocks_loop st e
      else if defaultType e \<noteq> JBool False then trigger (BlockCreate (defaultType e) []) e
      else e)"

section \<open>Teardown\<close>

text \<open>
  \<^verbatim>\<open>this.block_manager.blocks.forEach(function(block) { trigger('block:remove', block.blockID) })\<close>.
  \<^verbatim>\<open>Array.prototype.forEach\<close> reads the property \<^verbatim>\<open>blocks\<close> once (the address \<open>a\<close>),
  fixes the length before the first call, and then visits the indices in order, reading
  the array object at \<open>a\<close> as it is at that moment; an index that is no longer present
  is passed over. It makes no copy of the array.
\<close>

fun forEach_remove :: "nat \<Rightarrow> nat list \<Rightarrow> editor \<Rightarrow> editor" where
  "forEach_remove a [] e = e"
| "forEach_remove a (k # ks) e =
     forEach_remove a ks
       (if k < length (arrays (block_manager e) a)
        then trigger (BlockRemove (blockID (arrays (block_manager e) a ! k))) e
        else e)"

definition destroy :: "editor \<Rightarrow> editor" where
  "destroy e =
     (let e1 = act FormatBarDestroy e;
          e2 = act FlBlockControlsDestroy e1;
          e3 = act BlockControlsDestroy e2;
          a = blocks (block_manager e3);
          e4 = forEach_remove a [0 ..< length (arrays (block_manager e3) a)] e3;
          e5 = trigger Destroy e4;
          e6 = act MediatorStopListening e5;
          e7 = act StopListening e6;
          e8 = store_reset e7
      in act DomReplaceWith e8)"

section \<open>Reordering a block\<close>

definition hideAllTheThings :: "editor \<Rightarrow> editor" where
  "hideAllTheThings e = act FormatBarHide (act BlockControlsHide e)"

text \<open>
  \<^verbatim>\<open>getBlockPosition\<close>: \<^verbatim>\<open>index\<close> starts undefined and is overwritten at every
  item that is the block (\<^verbatim>\<open>block === item\<close>).
\<close>

fun getBlockPosition_loop :: "dom_node \<Rightarrow> dom_node list \<Rightarrow> nat \<Rightarrow> nat option \<Rightarrow> nat option" where
  "getBlockPosition_loop block [] i index = index"
| "getBlockPosition_loop block (item # items) i index =
     getBlockPosition_loop block items (Suc i) (if block = item then Some i else index)"

definition getBlockPosition :: "dom_node \<Rightarrow> editor \<Rightarrow> nat option" where
  "getBlockPosition block e = getBlockPosition_loop block (querySelectorAll e) 0 None"

text \<open>\<^verbatim>\<open>list[i]\<close>: \<^verbatim>\<open>undefined\<close> when \<open>i\<close> is not an index of the list.\<close>

definition js_index :: "'a list \<Rightarrow> int \<Rightarrow> 'a option" where
  "js_index xs i = (if 0 \<le> i \<and> i < int (length xs) then Some (xs ! nat i) else None)"

text \<open>\<^verbatim>\<open>blockPosition > selectedPosition\<close>: false when \<^verbatim>\<open>blockPosition\<close> is undefined.\<close>

definition js_gt :: "nat option \<Rightarrow> int \<Rightarrow> bool" where
  "js_gt p n = (case p of None \<Rightarrow> False | Some i \<Rightarrow> int i > n)"

text \<open>
  The nodes inside a node: in document order they are the nodes that follow it for as long
  as they lie deeper than it. A node that is not in the list is taken without descendants.
\<close>

definition inside :: "(dom_node \<Rightarrow> nat) \<Rightarrow> dom_node list \<Rightarrow> dom_node \<Rightarrow> dom_node list" where
  "inside d xs node = takeWhile (\<lambda>n. d node < d n) (drop 1 (dropWhile (\<lambda>n. n \<noteq> node) xs))"

text \<open>The document without a node and the nodes inside it.\<close>

definition detach :: "(dom_node \<Rightarrow> nat) \<Rightarrow> dom_node list \<Rightarrow> dom_node \<Rightarrow> dom_node list" where
  "detach d xs node =
     takeWhile (\<lambda>n. n \<noteq> node) xs
     @ dropWhile (\<lambda>n. d node < d n) (drop 1 (dropWhile (\<lambda>n. n \<noteq> node) xs))"

text \<open>
  After a node has been inserted next to \<open>r\<close> it lies as deep as \<open>r\<close>, and the nodes
  inside it keep their depth below it.
\<close>

definition moved_nesting :: "editor \<Rightarrow> dom_node \<Rightarrow> dom_node \<Rightarrow> dom_node \<Rightarrow> nat" where
  "moved_nesting e node r =
     (\<lambda>n. if n \<in> set (node # inside (nesting e) (wrapper e) node)
          then nesting e n - nesting e node + nesting e r
          else nesting e n)"

text \<open>
  \<^verbatim>\<open>r.parentNode.insertBefore(node, r)\<close>: the DOM refuses the insertion with a
  \<^verbatim>\<open>HierarchyRequestError\<close> when \<open>node\<close> contains the parent of \<open>r\<close>, that is,
  when \<open>r\<close> lies inside \<open>node\<close>; inserting a node before itself changes nothing;
  otherwise the node leaves its current position, with the nodes inside it, and is put in
  front of \<open>r\<close>.
\<close>

definition dom_insertBefore :: "dom_node \<Rightarrow> dom_node \<Rightarrow> editor \<Rightarrow> js_error + editor" where
  "dom_insertBefore node r e =
     (if node = r then Inr e
      else if r \<in> set (inside (nesting e) (wrapper e) node) then Inl HierarchyRequestError
      else
        (let rest = detach (nesting e) (wrapper e) node in
         Inr (e\<lparr>wrapper :=
                  takeWhile (\<lambda>n. n \<noteq> r) rest
                  @ (node # inside (nesting e) (wrapper e) node)
                  @ dropWhile (\<lambda>n. n \<noteq> r) rest,
                nesting := moved_nesting e node r\<rparr>)))"

text \<open>
  Modelled from the spec: \<^verbatim>\<open>Dom.insertAfter(block, blockBy)\<close> (packages/dom is not
  under src/) "inserts after" the target node: the node is put behind \<open>r\<close> and the nodes
  inside \<open>r\<close>, as the next sibling of \<open>r\<close>. As every insertion into the DOM, it is
  refused when \<open>r\<close> lies inside the node to insert.
\<close>

definition dom_insertAfter :: "dom_node \<Rightarrow> dom_node \<Rightarrow> editor \<Rightarrow> js_error + editor" where
  "dom_insertAfter node r e =
     (if node = r then Inr e
      else if r \<in> set (inside (nesting e) (wrapper e) node) then Inl HierarchyRequestError
      else
        (let rest = detach (nesting e) (wrapper e) node in
         Inr (e\<lparr>wrapper :=
                  takeWhile (\<lambda>n. n \<noteq> r) rest
                  @ take 1 (dropWhile (\<lambda>n. n \<noteq> r) rest)
                  @ inside (nesting e) rest r
                  @ (node # inside (nesting e) (wrapper e) node)
                  @ dropWhile (\<lambda>n. nesting e r < nesting e n)
                      (drop 1 (dropWhile (\<lambda>n. n \<noteq> r) rest)),
                nesting := moved_nesting e node r\<rparr>)))"

definition changeBlockPosition :: "dom_node \<Rightarrow> int \<Rightarrow> editor \<Rightarrow> js_error + editor" where
  "changeBlockPosition block selectedPosition0 e =
     (let selectedPosition = selectedPosition0 - 1;
          blockPosition = getBlockPosition block e;
          blockBy = js_index (querySelectorAll e) selectedPosition
      in case blockBy of
           None \<Rightarrow> Inr e
         | Some by \<Rightarrow>
             if id_attr by \<noteq> id_attr block then
               (let e1 = hideAllTheThings e in
                if js_gt blockPosition selectedPosition
                then dom_insertBefore block by e1
                else dom_insertAfter block by e1)
             else Inr e)"

section \<open>What a pass does, block by block\<close>

text \<open>
  The functions of this section are not code of the editor: they say, in closed form, what
  a validation pass is proved to do, so that the theorems can state it.
\<close>

definition block_saved :: "bool \<Rightarrow> bool \<Rightarrow> block \<Rightarrow> bool" where
  "block_saved skip shouldValidate b = ((skip \<and> \<not> shouldValidate) \<or> valid b)"

definition block_actions :: "bool \<Rightarrow> bool \<Rightarrow> block \<Rightarrow> action list" where
  "block_actions skip shouldValidate b =
     (if skip \<and> \<not> shouldValidate then
        [BlockGetData (blockID b), StoreAddData (block_getData b)]
      else if valid b then
        [BlockValid (blockID b), BlockGetData (blockID b), StoreAddData (block_getData b)]
      else [BlockValid (blockID b), Trigger (ErrorsAdd (validationFailMsg b))])"

text \<open>The registered blocks the block nodes resolve to, in the order of the nodes.\<close>

definition resolved :: "dom_node list \<Rightarrow> editor \<Rightarrow> block list" where
  "resolved ns e = List.map_filter (\<lambda>n. findBlockById (id_attr n) e) ns"

text \<open>The calls of one pass of \<^verbatim>\<open>getData\<close>, in order.\<close>

definition pass_trace :: "bool \<Rightarrow> editor \<Rightarrow> action list" where
  "pass_trace shouldValidate e =
     [Trigger ErrorsReset, StoreReset]
     @ concat (map (block_actions (skipValidation e) shouldValidate) (resolved (querySelectorAll e) e))
     @ ValidateBlockTypesExist shouldValidate
       # map (\<lambda>t. Trigger (ErrorsAdd t)) (typeErrors e shouldValidate)
     @ [Trigger ErrorsRender]"

section \<open>Example editors\<close>

definition text_block :: block where
  "text_block = \<lparr>blockID = ''st-block-1'', valid = True, validationFailMsg = ''text is empty'',
     block_getData = \<lparr>bd_type = ''text'', bd_data = [(''text'', ''hello'')]\<rparr>\<rparr>"

definition image_block :: block where
  "image_block = \<lparr>blockID = ''st-block-2'', valid = False, validationFailMsg = ''image is missing'',
     block_getData = \<lparr>bd_type = ''image'', bd_data = []\<rparr>\<rparr>"

definition text_node :: dom_node where
  "text_node = \<lparr>node_ref = 1, st_block = True, id_attr = Some ''st-block-1''\<rparr>"

definition image_node :: dom_node where
  "image_node = \<lparr>node_ref = 2, st_block = True, id_attr = Some ''st-block-2''\<rparr>"

definition stray_node :: dom_node where
  "stray_node = \<lparr>node_ref = 3, st_block = True, id_attr = Some ''st-block-9''\<rparr>"

definition controls_node :: dom_node where
  "controls_node = \<lparr>node_ref = 0, st_block = False, id_attr = None\<rparr>"

text \<open>
  A block manager that removes a block the way \<^verbatim>\<open>this.blocks = this.blocks.filter(...)\<close>
  does: the filtered copy is a new array (at address 1), and the property is set to it.
\<close>

definition remove_by_copy :: "string \<Rightarrow> registry \<Rightarrow> registry" where
  "remove_by_copy i r =
     r\<lparr>arrays := (arrays r)(1 := filter (\<lambda>b. blockID b \<noteq> i) (arrays r (blocks r))),
       blocks := 1\<rparr>"

text \<open>
  A block manager that removes a block in place, the way
  \<^verbatim>\<open>this.blocks.splice(index, 1)\<close> does: the array object stays the same one.
\<close>

definition remove_in_place :: "string \<Rightarrow> registry \<Rightarrow> registry" where
  "remove_in_place i r =
     r\<lparr>arrays := (arrays r)(blocks r := filter (\<lambda>b. blockID b \<noteq> i) (arrays r (blocks r)))\<rparr>"

text \<open>
  Two blocks, the text block valid and the image block not; the image block was registered
  first, and the text block comes first in the document, after the floating controls.
\<close>

definition two_blocks :: editor where
  "two_blocks =
     \<lparr>skipValidation = False, defaultType = JStr ''text'',
      wrapper = [controls_node, text_node, image_node],
      nesting = (\<lambda>n. 0),
      block_manager = \<lparr>arrays = (\<lambda>a. if a = 0 then [image_block, text_block] else []),
                        blocks = 0, queuedItems = []\<rparr>,
      store = [], errors = [], trace = [],
      serialize = (\<lambda>ds. concat (map bd_type ds)),
      typeErrors = (\<lambda>sv. []),
      createBlock = (\<lambda>ty d r. r),
      removeBlock = remove_by_copy\<rparr>"

text \<open>One valid block with an upload still outstanding.\<close>

definition one_upload :: editor where
  "one_upload =
     \<lparr>skipValidation = False, defaultType = JBool False,
      wrapper = [controls_node, text_node],
      nesting = (\<lambda>n. 0),
      block_manager = \<lparr>arrays = (\<lambda>a. if a = 0 then [text_block] else []),
                        blocks = 0,
                        queuedItems = [\<lparr>qi_name = ''upload'', deferred = 7\<rparr>]\<rparr>,
      store = [], errors = [], trace = [],
      serialize = (\<lambda>ds. concat (map bd_type ds)),
      typeErrors = (\<lambda>sv. []),
      createBlock = (\<lambda>ty d r. r),
      removeBlock = remove_by_copy\<rparr>"

text \<open>The two blocks again, with a block manager that removes in place.\<close>

definition splicing :: editor where
  "splicing = two_blocks\<lparr>removeBlock := remove_in_place\<rparr>"

text \<open>
  The two blocks with the content of the text block, a node inside the text node; and a
  wrapper in which one block node lies inside another.
\<close>

definition text_content :: dom_node where
  "text_content = \<lparr>node_ref = 4, st_block = False, id_attr = None\<rparr>"

definition with_content :: editor where
  "with_content =
     two_blocks\<lparr>wrapper := [controls_node, text_node, text_content, image_node],
                 nesting := (\<lambda>n. if n = text_content then 1 else 0)\<rparr>"

definition inner_node :: dom_node where
  "inner_node = \<lparr>node_ref = 5, st_block = True, id_attr = Some ''st-block-5''\<rparr>"

definition nested_blocks :: editor where
  "nested_blocks =
     two_blocks\<lparr>wrapper := [controls_node, text_node, inner_node, image_node],
                 nesting := (\<lambda>n. if n = inner_node then 1 else 0)\<rparr>"

section \<open>Event subscriptions of the editors of one page\<close>


















section \<open>Waiting for the queued items\<close>

text \<open>
  \<^verbatim>\<open>process\<close> builds \<^verbatim>\<open>Promise.all(deferreds).then(() => this.getData(shouldValidate))\<close>.
  Promises settle as the event loop runs jobs, one at a time; the loop is a step relation.
  A promise is pending or settled, and the moment it settled is kept. The clock is a ghost
  field: it counts the jobs run so far, and the code never reads it.
\<close>

datatype pstate = Pending | Fulfilled nat | Rejected nat

record world =
  ed :: editor
  promises :: "nat \<Rightarrow> pstate"
  clock :: nat

text \<open>
  The promise \<^verbatim>\<open>process\<close> returns: still waiting for the deferreds it was built from,
  with the argument its callback will pass to \<^verbatim>\<open>getData\<close>; or fulfilled with a result
  at some moment; or rejected.
\<close>

datatype future = Waiting "nat list" jsval | Resolved result nat | Failed nat

definition process :: "jsval \<Rightarrow> world \<Rightarrow> future" where
  "process shouldValidate w = Waiting (map deferred (getBlockQueuedItems (ed w))) shouldValidate"

definition tick :: "world \<Rightarrow> world" where
  "tick w = w\<lparr>clock := Suc (clock w)\<rparr>"

text \<open>
  The jobs of the event loop. A pending deferred is fulfilled or rejected by its owner; any
  other code may change the editor; \<^verbatim>\<open>Promise.all\<close> is fulfilled once every one of its
  promises is, and its \<^verbatim>\<open>then\<close> callback then runs \<^verbatim>\<open>getData\<close> on the editor as it
  is at that moment; it is rejected once one of its promises is.
\<close>

inductive step :: "world \<times> future \<Rightarrow> world \<times> future \<Rightarrow> bool" where
  fulfil: "promises w d = Pending \<Longrightarrow>
     step (w, f) (tick (w\<lparr>promises := (promises w)(d := Fulfilled (clock w))\<rparr>), f)"
| reject: "promises w d = Pending \<Longrightarrow>
     step (w, f) (tick (w\<lparr>promises := (promises w)(d := Rejected (clock w))\<rparr>), f)"
| other: "step (w, f) (tick (w\<lparr>ed := e'\<rparr>), f)"
| callback: "\<forall>d \<in> set ds. \<exists>t. promises w d = Fulfilled t \<Longrightarrow>
     step (w, Waiting ds v)
          (tick (w\<lparr>ed := snd (getData v (ed w))\<rparr>), Resolved (fst (getData v (ed w))) (clock w))"
| rejected: "d \<in> set ds \<Longrightarrow> promises w d = Rejected t \<Longrightarrow>
     step (w, Waiting ds v) (tick w, Failed (clock w))"

text \<open>Every settled promise settled in the past.\<close>

definition settled_before :: "world \<Rightarrow> bool" where
  "settled_before w =
     (\<forall>d t. (promises w d = Fulfilled t \<or> promises w d = Rejected t) \<longrightarrow> t < clock w)"

text \<open>
  A run: the upload of \<open>one_upload\<close> is pending when \<^verbatim>\<open>process\<close> is called; it is
  fulfilled, the block drops its queued item, and the callback runs.
\<close>

definition upload_pending :: world where
  "upload_pending = \<lparr>ed = one_upload, promises = (\<lambda>d. Pending), clock = 0\<rparr>"

definition upload_done :: editor where
  "upload_done = one_upload\<lparr>block_manager := (block_manager one_upload)\<lparr>queuedItems := []\<rparr>\<rparr>"

definition upload_ready :: world where
  "upload_ready =
     \<lparr>ed = upload_done, promises = (\<lambda>d. if d = 7 then Fulfilled 0 else Pending), clock = 2\<rparr>"

definition upload_resolved :: world where
  "upload_resolved =
     \<lparr>ed = snd (getData JUndefined upload_done),
      promises = (\<lambda>d. if d = 7 then Fulfilled 0 else Pending),
      clock = 3\<rparr>"

section \<open>Lemmas on the pass\<close>

lemma js_not_or: "js_not (js_or a b) = (a = 0 \<and> b = 0)"
  by (simp add: js_not_def js_or_def)

lemma validateAndSaveBlock_eq:
  "validateAndSaveBlock b sv e =
     e\<lparr>store := store e @ (if block_saved (skipValidation e) sv b then [block_getData b] else []),
       errors := errors e @ (if block_saved (skipValidation e) sv b then [] else [validationFailMsg b]),
       trace := trace e @ block_actions (skipValidation e) sv b\<rparr>"
  by (simp add: validateAndSaveBlock_def saveBlock_def store_addData_def act_def trigger_def
      block_saved_def block_actions_def Let_def)

lemma resolved_Nil: "resolved [] e = []"
  by (simp add: resolved_def List.map_filter_simps)

lemma resolved_Cons:
  "resolved (n # ns) e =
     (case findBlockById (id_attr n) e of None \<Rightarrow> resolved ns e | Some b \<Rightarrow> b # resolved ns e)"
  by (cases "findBlockById (id_attr n) e") (simp_all add: resolved_def List.map_filter_simps)

lemma resolved_append: "resolved (xs @ ys) e = resolved xs e @ resolved ys e"
  by (induction xs) (simp_all add: resolved_Nil resolved_Cons split: option.splits)

lemma resolved_frame:
  "block_manager e' = block_manager e \<Longrightarrow> resolved ns e' = resolved ns e"
  by (simp add: resolved_def findBlockById_def)

lemma validateBlocks_loop_eq:
  "validateBlocks_loop ns sv e =
     e\<lparr>store := store e @ map block_getData (filter (block_saved (skipValidation e) sv) (resolved ns e)),
       errors := errors e @ map validationFailMsg
                   (filter (\<lambda>b. \<not> block_saved (skipValidation e) sv b) (resolved ns e)),
       trace := trace e @ concat (map (block_actions (skipValidation e) sv) (resolved ns e))\<rparr>"
proof (induction ns arbitrary: e)
  case Nil
  then show ?case by (simp add: resolved_Nil)
next
  case (Cons n ns)
  show ?case
  proof (cases "findBlockById (id_attr n) e")
    case None
    then show ?thesis using Cons.IH [of e]
      by (simp add: resolved_Cons)
  next
    case (Some b)
    have r: "resolved ns (validateAndSaveBlock b sv e) = resolved ns e"
      by (rule resolved_frame) (simp add: validateAndSaveBlock_eq)
    show ?thesis using Some Cons.IH [of "validateAndSaveBlock b sv e"]
      by (simp add: r resolved_Cons) (simp add: validateAndSaveBlock_eq)
  qed
qed

lemma fold_errors_add:
  "fold (\<lambda>t. trigger (ErrorsAdd t)) ts e =
     e\<lparr>errors := errors e @ ts, trace := trace e @ map (\<lambda>t. Trigger (ErrorsAdd t)) ts\<rparr>"
  by (induction ts arbitrary: e) (simp_all add: trigger_def act_def)

lemma bm_validateBlockTypesExist_eq:
  "bm_validateBlockTypesExist sv e =
     e\<lparr>errors := errors e @ typeErrors e sv,
       trace := trace e @ ValidateBlockTypesExist sv
                  # map (\<lambda>t. Trigger (ErrorsAdd t)) (typeErrors e sv)\<rparr>"
  by (simp add: bm_validateBlockTypesExist_def fold_errors_add act_def)

lemma getData_state:
  "snd (getData v e) =
     e\<lparr>store := map block_getData
                 (filter (block_saved (skipValidation e) (v \<noteq> JBool False))
                    (resolved (querySelectorAll e) e)),
       errors := map validationFailMsg
                   (filter (\<lambda>b. \<not> block_saved (skipValidation e) (v \<noteq> JBool False) b)
                      (resolved (querySelectorAll e) e))
                 @ typeErrors e (v \<noteq> JBool False),
       trace := trace e @ pass_trace (v \<noteq> JBool False) e\<rparr>"
proof -
  let ?sv = "v \<noteq> JBool False"
  let ?bs = "resolved (querySelectorAll e) e"
  let ?e2 = "store_reset (trigger ErrorsReset e)"
  let ?e3 = "validateBlocks ?sv ?e2"
  let ?e4 = "bm_validateBlockTypesExist ?sv ?e3"
  have sv: "(if v = JBool False then False else True) = ?sv"
    by simp
  have e2: "?e2 = e\<lparr>store := [], errors := [], trace := trace e @ [Trigger ErrorsReset, StoreReset]\<rparr>"
    by (simp add: store_reset_def trigger_def act_def)
  have q: "querySelectorAll ?e2 = querySelectorAll e"
    by (simp add: e2 querySelectorAll_def)
  have r: "resolved ns ?e2 = resolved ns e" for ns
    by (rule resolved_frame) (simp add: e2)
  have e3: "?e3 = e\<lparr>store := map block_getData (filter (block_saved (skipValidation e) ?sv) ?bs),
       errors := map validationFailMsg (filter (\<lambda>b. \<not> block_saved (skipValidation e) ?sv b) ?bs),
       trace := trace e @ [Trigger ErrorsReset, StoreReset]
                @ concat (map (block_actions (skipValidation e) ?sv) ?bs)\<rparr>"
    unfolding validateBlocks_def validateBlocks_loop_eq q r
    by (simp add: e2)
  have e4: "?e4 = e\<lparr>store := map block_getData (filter (block_saved (skipValidation e) ?sv) ?bs),
       errors := map validationFailMsg (filter (\<lambda>b. \<not> block_saved (skipValidation e) ?sv b) ?bs)
                 @ typeErrors e ?sv,
       trace := trace e @ [Trigger ErrorsReset, StoreReset]
                @ concat (map (block_actions (skipValidation e) ?sv) ?bs)
                @ ValidateBlockTypesExist ?sv # map (\<lambda>t. Trigger (ErrorsAdd t)) (typeErrors e ?sv)\<rparr>"
    unfolding bm_validateBlockTypesExist_eq
    by (simp add: e3)
  have "snd (getData v e) = trigger ErrorsRender ?e4"
    unfolding getData_def Let_def sv by simp
  also have "\<dots> = e\<lparr>store := map block_getData (filter (block_saved (skipValidation e) ?sv) ?bs),
       errors := map validationFailMsg (filter (\<lambda>b. \<not> block_saved (skipValidation e) ?sv b) ?bs)
                 @ typeErrors e ?sv,
       trace := trace e @ pass_trace ?sv e\<rparr>"
    unfolding e4 by (simp add: trigger_def act_def pass_trace_def)
  finally show ?thesis .
qed

lemma getData_fst:
  "fst (getData v e) =
     \<lparr>r_data = store_toString (snd (getData v e)),
      r_errors = length (errors (snd (getData v e))),
      r_canSubmit = (errors (snd (getData v e)) = [] \<and> getBlockQueuedItems e = [])\<rparr>"
proof -
  have "getBlockQueuedItems (snd (getData v e)) = getBlockQueuedItems e"
    unfolding getData_state by (simp add: getBlockQueuedItems_def)
  then show ?thesis
    by (simp add: getData_def Let_def js_not_or)
qed

section \<open>The result of getData\<close>

text \<open>
  C2: \<^verbatim>\<open>getData(v)\<close> treats its argument as true unless it is exactly \<^verbatim>\<open>false\<close>, and
  returns the store's serialization, the error handler's error count and a
  \<^verbatim>\<open>canSubmit\<close> that is true if and only if the error count is zero and no queued item
  is outstanding; so \<^verbatim>\<open>canSubmit\<close> is false whenever a queued item is outstanding, even
  with zero errors.
\<close>

theorem getData_result:
  "getData v e = getData (JBool (v \<noteq> JBool False)) e
   \<and> fst (getData v e) =
       \<lparr>r_data = store_toString (snd (getData v e)),
        r_errors = length (errors (snd (getData v e))),
        r_canSubmit = (length (errors (snd (getData v e))) = 0
                       \<and> length (getBlockQueuedItems (snd (getData v e))) = 0)\<rparr>
   \<and> getBlockQueuedItems (snd (getData v e)) = getBlockQueuedItems e
   \<and> (getBlockQueuedItems e \<noteq> [] \<longrightarrow> \<not> r_canSubmit (fst (getData v e)))"
proof -
  have "getData v e = getData (JBool (v \<noteq> JBool False)) e"
    by (simp add: getData_def)
  moreover have "getBlockQueuedItems (snd (getData v e)) = getBlockQueuedItems e"
    unfolding getData_state by (simp add: getBlockQueuedItems_def)
  ultimately show ?thesis
    by (simp add: getData_fst)
qed

lemma findBlockById_text: "findBlockById (id_attr text_node) one_upload = Some text_block"
  by (simp add: findBlockById_def bm_findBlockById_def one_upload_def text_node_def text_block_def)

lemma resolved_one_upload: "resolved (querySelectorAll one_upload) one_upload = [text_block]"
proof -
  have "querySelectorAll one_upload = [text_node]"
    by (simp add: querySelectorAll_def one_upload_def controls_node_def text_node_def)
  then show ?thesis
    by (simp add: resolved_Cons resolved_Nil findBlockById_text)
qed

theorem getData_result_witness:
  "getBlockQueuedItems one_upload \<noteq> []
   \<and> r_errors (fst (getData JUndefined one_upload)) = 0
   \<and> \<not> r_canSubmit (fst (getData JUndefined one_upload))
   \<and> getData JNull one_upload = getData (JBool True) one_upload"
proof -
  have q: "getBlockQueuedItems one_upload \<noteq> []"
    by (simp add: getBlockQueuedItems_def one_upload_def)
  have e: "errors (snd (getData JUndefined one_upload)) = []"
    unfolding getData_state resolved_one_upload
    by (simp add: block_saved_def text_block_def) (simp add: one_upload_def)
  note r = getData_result [of JUndefined one_upload]
  have f: "fst (getData JUndefined one_upload) =
       \<lparr>r_data = store_toString (snd (getData JUndefined one_upload)),
        r_errors = length (errors (snd (getData JUndefined one_upload))),
        r_canSubmit = (length (errors (snd (getData JUndefined one_upload))) = 0
                       \<and> length (getBlockQueuedItems (snd (getData JUndefined one_upload))) = 0)\<rparr>"
    using r by blast
  have "r_errors (fst (getData JUndefined one_upload)) = 0"
    unfolding f by (simp add: e)
  moreover have "\<not> r_canSubmit (fst (getData JUndefined one_upload))"
    using r q by blast
  moreover have "getData JNull one_upload = getData (JBool True) one_upload"
    using getData_result [of JNull one_upload] by simp
  ultimately show ?thesis
    using q by blast
qed

section \<open>Lemmas on the example editors\<close>

lemma validateBlocks_eq:
  "validateBlocks sv e =
     e\<lparr>store := store e @ map block_getData
                 (filter (block_saved (skipValidation e) sv) (resolved (querySelectorAll e) e)),
       errors := errors e @ map validationFailMsg
                   (filter (\<lambda>b. \<not> block_saved (skipValidation e) sv b)
                      (resolved (querySelectorAll e) e)),
       trace := trace e @ concat (map (block_actions (skipValidation e) sv)
                                    (resolved (querySelectorAll e) e))\<rparr>"
  by (simp add: validateBlocks_def validateBlocks_loop_eq)

lemma resolved_two_blocks:
  "resolved (querySelectorAll two_blocks) two_blocks = [text_block, image_block]"
proof -
  have q: "querySelectorAll two_blocks = [text_node, image_node]"
    by (simp add: querySelectorAll_def two_blocks_def controls_node_def text_node_def
        image_node_def)
  have t: "findBlockById (id_attr text_node) two_blocks = Some text_block"
    by (simp add: findBlockById_def bm_findBlockById_def two_blocks_def text_node_def
        text_block_def image_block_def)
  have i: "findBlockById (id_attr image_node) two_blocks = Some image_block"
    by (simp add: findBlockById_def bm_findBlockById_def two_blocks_def image_node_def
        text_block_def image_block_def)
  show ?thesis
    by (simp add: q resolved_Cons resolved_Nil t i)
qed

lemma querySelectorAll_two_blocks: "querySelectorAll two_blocks = [text_node, image_node]"
  by (simp add: querySelectorAll_def two_blocks_def controls_node_def text_node_def
      image_node_def)

lemma findBlockById_two_blocks:
  "findBlockById (id_attr text_node) two_blocks = Some text_block"
  "findBlockById (id_attr image_node) two_blocks = Some image_block"
  by (simp_all add: findBlockById_def bm_findBlockById_def two_blocks_def text_node_def
      image_node_def text_block_def image_block_def)

section \<open>Order of a pass\<close>

text \<open>
  C5: in every call of \<^verbatim>\<open>getData\<close> the \<^verbatim>\<open>errors:reset\<close> event and the store reset
  come before any block's validity check or data extraction, so that no error record and
  no store entry of an earlier pass reaches the result; and the blocks are validated and
  appended to the store in the order of the block nodes in the wrapper, not in the order
  of the registry.
\<close>

theorem getData_resets_then_walks_dom_order:
  "trace (snd (getData v e)) =
     trace e @ [Trigger ErrorsReset, StoreReset]
     @ concat (map (block_actions (skipValidation e) (v \<noteq> JBool False))
                 (resolved (querySelectorAll e) e))
     @ ValidateBlockTypesExist (v \<noteq> JBool False)
       # map (\<lambda>t. Trigger (ErrorsAdd t)) (typeErrors e (v \<noteq> JBool False))
     @ [Trigger ErrorsRender]
   \<and> store (snd (getData v e)) =
       map block_getData
         (filter (block_saved (skipValidation e) (v \<noteq> JBool False))
            (resolved (filter st_block (wrapper e)) e))
   \<and> errors (snd (getData v e)) =
       map validationFailMsg
         (filter (\<lambda>b. \<not> block_saved (skipValidation e) (v \<noteq> JBool False) b)
            (resolved (filter st_block (wrapper e)) e))
       @ typeErrors e (v \<noteq> JBool False)
   \<and> fst (getData v (e\<lparr>store := old_store, errors := old_errors\<rparr>)) = fst (getData v e)"
proof -
  let ?e' = "e\<lparr>store := old_store, errors := old_errors\<rparr>"
  have q: "querySelectorAll ?e' = querySelectorAll e"
    by (simp add: querySelectorAll_def)
  have r: "resolved ns ?e' = resolved ns e" for ns
    by (rule resolved_frame) simp
  have s: "store (snd (getData v ?e')) = store (snd (getData v e))"
    unfolding getData_state q r by simp
  have er: "errors (snd (getData v ?e')) = errors (snd (getData v e))"
    unfolding getData_state q r by simp
  have ser: "serialize (snd (getData v ?e')) = serialize (snd (getData v e))"
    unfolding getData_state by simp
  have qi: "getBlockQueuedItems ?e' = getBlockQueuedItems e"
    by (simp add: getBlockQueuedItems_def)
  have "fst (getData v ?e') = fst (getData v e)"
    unfolding getData_fst store_toString_def s er ser qi by simp
  then show ?thesis
    unfolding getData_state by (simp add: pass_trace_def querySelectorAll_def)
qed

text \<open>
  In \<open>two_blocks\<close> the registry holds the image block first and the document holds the
  text block first; the store follows the document.
\<close>

lemma getData_dom_order_example:
  "bm_blocks two_blocks = [image_block, text_block]
   \<and> store (snd (getData (JBool False) (two_blocks\<lparr>skipValidation := True\<rparr>))) =
       [block_getData text_block, block_getData image_block]"
proof -
  let ?e = "two_blocks\<lparr>skipValidation := True\<rparr>"
  have q: "querySelectorAll ?e = querySelectorAll two_blocks"
    by (simp add: querySelectorAll_def)
  have r: "resolved ns ?e = resolved ns two_blocks" for ns
    by (rule resolved_frame) simp
  have "bm_blocks two_blocks = [image_block, text_block]"
    by (simp add: bm_blocks_def two_blocks_def)
  moreover have "store (snd (getData (JBool False) ?e)) =
       [block_getData text_block, block_getData image_block]"
    unfolding getData_state q r resolved_two_blocks
    by (simp add: block_saved_def)
  ultimately show ?thesis by simp
qed

section \<open>Validation failures are collected\<close>

text \<open>
  C4: for a block processed with validation enabled, a failing validity check emits
  \<^verbatim>\<open>errors:add\<close> with the block's \<^verbatim>\<open>validationFailMsg\<close> and leaves the store
  unchanged; a passing one appends the block's data to the store and records no error. A
  failing block does not abort the pass: over two blocks of which one fails (and with no
  error from the block-type check) the result has \<^verbatim>\<open>errors: 1\<close>,
  \<^verbatim>\<open>canSubmit: false\<close>, and the store holds only the valid block's record.
\<close>

theorem validateAndSaveBlock_collects_failures:
  assumes sv: "sv = (v \<noteq> JBool False)"
    and enabled: "\<not> skipValidation e \<or> sv"
  shows "(\<not> valid b \<longrightarrow>
            validateAndSaveBlock b sv e =
              e\<lparr>errors := errors e @ [validationFailMsg b],
                trace := trace e @ [BlockValid (blockID b),
                                    Trigger (ErrorsAdd (validationFailMsg b))]\<rparr>)
       \<and> (valid b \<longrightarrow>
            validateAndSaveBlock b sv e =
              e\<lparr>store := store e @ [block_getData b],
                trace := trace e @ [BlockValid (blockID b), BlockGetData (blockID b),
                                    StoreAddData (block_getData b)]\<rparr>)
       \<and> (querySelectorAll e = [n1, n2]
            \<and> findBlockById (id_attr n1) e = Some b1
            \<and> findBlockById (id_attr n2) e = Some b2
            \<and> valid b1 \<noteq> valid b2
            \<and> typeErrors e sv = [] \<longrightarrow>
            r_errors (fst (getData v e)) = 1
            \<and> \<not> r_canSubmit (fst (getData v e))
            \<and> store (snd (getData v e)) = [block_getData (if valid b1 then b1 else b2)]
            \<and> errors (snd (getData v e)) = [validationFailMsg (if valid b1 then b2 else b1)])"
proof (intro conjI impI)
  assume "\<not> valid b"
  then show "validateAndSaveBlock b sv e =
      e\<lparr>errors := errors e @ [validationFailMsg b],
        trace := trace e @ [BlockValid (blockID b), Trigger (ErrorsAdd (validationFailMsg b))]\<rparr>"
    using enabled
    by (auto simp add: validateAndSaveBlock_eq block_saved_def block_actions_def)
next
  assume "valid b"
  then show "validateAndSaveBlock b sv e =
      e\<lparr>store := store e @ [block_getData b],
        trace := trace e @ [BlockValid (blockID b), BlockGetData (blockID b),
                            StoreAddData (block_getData b)]\<rparr>"
    using enabled
    by (auto simp add: validateAndSaveBlock_eq block_saved_def block_actions_def)
next
  assume a: "querySelectorAll e = [n1, n2]
            \<and> findBlockById (id_attr n1) e = Some b1
            \<and> findBlockById (id_attr n2) e = Some b2
            \<and> valid b1 \<noteq> valid b2
            \<and> typeErrors e sv = []"
  then have r: "resolved (querySelectorAll e) e = [b1, b2]"
    by (simp add: resolved_Cons resolved_Nil)
  have saved: "block_saved (skipValidation e) sv b' = valid b'" for b'
    using enabled by (auto simp add: block_saved_def)
  have t: "typeErrors e (v \<noteq> JBool False) = []"
    using a sv by simp
  have ne: "valid b1 \<noteq> valid b2"
    using a by simp
  have f1: "map block_getData (filter (block_saved (skipValidation e) sv) [b1, b2]) =
      [block_getData (if valid b1 then b1 else b2)]"
    using ne by (cases "valid b1") (simp_all add: saved)
  have f2: "map validationFailMsg (filter (\<lambda>b. \<not> block_saved (skipValidation e) sv b) [b1, b2]) =
      [validationFailMsg (if valid b1 then b2 else b1)]"
    using ne by (cases "valid b1") (simp_all add: saved)
  have st: "store (snd (getData v e)) = [block_getData (if valid b1 then b1 else b2)]"
    unfolding getData_state r sv [symmetric] f1 by simp
  have t': "typeErrors e sv = []"
    using a by simp
  have er: "errors (snd (getData v e)) = [validationFailMsg (if valid b1 then b2 else b1)]"
    unfolding getData_state r sv [symmetric] f2 t' by simp
  show "r_errors (fst (getData v e)) = 1" 
    unfolding getData_fst by (simp add: er)
  show "\<not> r_canSubmit (fst (getData v e))" 
    unfolding getData_fst by (simp add: er)
  show "store (snd (getData v e)) = [block_getData (if valid b1 then b1 else b2)]"
    by (rule st)
  show "errors (snd (getData v e)) = [validationFailMsg (if valid b1 then b2 else b1)]"
    by (rule er)
qed

theorem validateAndSaveBlock_collects_failures_witness:
  "r_errors (fst (getData JUndefined two_blocks)) = 1
   \<and> \<not> r_canSubmit (fst (getData JUndefined two_blocks))
   \<and> store (snd (getData JUndefined two_blocks)) = [block_getData text_block]
   \<and> errors (snd (getData JUndefined two_blocks)) = [''image is missing'']
   \<and> store (validateAndSaveBlock image_block True two_blocks) = []
   \<and> errors (validateAndSaveBlock image_block True two_blocks) = [''image is missing'']
   \<and> store (validateAndSaveBlock text_block True two_blocks) = [block_getData text_block]
   \<and> errors (validateAndSaveBlock text_block True two_blocks) = []"
proof -
  have sv: "True = (JUndefined \<noteq> JBool False)"
    by simp
  have en: "\<not> skipValidation two_blocks \<or> True"
    by simp
  have t: "valid text_block" and i: "\<not> valid image_block"
    by (simp_all add: text_block_def image_block_def)
  have ty: "typeErrors two_blocks True = []"
    by (simp add: two_blocks_def)
  have st: "store two_blocks = []" and er: "errors two_blocks = []"
    by (simp_all add: two_blocks_def)
  have m: "validationFailMsg image_block = ''image is missing''"
    by (simp add: image_block_def)
  note w1 = validateAndSaveBlock_collects_failures
    [OF sv en, of image_block text_node image_node text_block image_block]
  note w2 = validateAndSaveBlock_collects_failures
    [OF sv en, of text_block text_node image_node text_block image_block]
  have a: "validateAndSaveBlock image_block True two_blocks =
      two_blocks\<lparr>errors := errors two_blocks @ [validationFailMsg image_block],
        trace := trace two_blocks @ [BlockValid (blockID image_block),
                                    Trigger (ErrorsAdd (validationFailMsg image_block))]\<rparr>"
    using w1 i by blast
  have b: "validateAndSaveBlock text_block True two_blocks =
      two_blocks\<lparr>store := store two_blocks @ [block_getData text_block],
        trace := trace two_blocks @ [BlockValid (blockID text_block),
           BlockGetData (blockID text_block), StoreAddData (block_getData text_block)]\<rparr>"
    using w2 t by blast
  have c: "r_errors (fst (getData JUndefined two_blocks)) = 1
     \<and> \<not> r_canSubmit (fst (getData JUndefined two_blocks))
     \<and> store (snd (getData JUndefined two_blocks)) =
         [block_getData (if valid text_block then text_block else image_block)]
     \<and> errors (snd (getData JUndefined two_blocks)) =
         [validationFailMsg (if valid text_block then image_block else text_block)]"
    using w1 querySelectorAll_two_blocks findBlockById_two_blocks t i ty by blast
  show ?thesis
    using c by (simp add: a b t m st er)
qed

section \<open>getData(false)\<close>

text \<open>
  C1 as stated fails: with the global \<^verbatim>\<open>skipValidation\<close> off, \<^verbatim>\<open>getData(false)\<close>
  still calls \<^verbatim>\<open>valid()\<close> on every block, and an invalid block is reported.
\<close>

theorem getData_false_counterexample:
  "\<not> skipValidation two_blocks
   \<and> typeErrors two_blocks False = []
   \<and> r_errors (fst (getData (JBool False) two_blocks)) = 1
   \<and> errors (snd (getData (JBool False) two_blocks)) = [validationFailMsg image_block]
   \<and> trace (snd (getData (JBool False) two_blocks)) =
       [Trigger ErrorsReset, StoreReset,
        BlockValid ''st-block-1'', BlockGetData ''st-block-1'',
        StoreAddData (block_getData text_block),
        BlockValid ''st-block-2'', Trigger (ErrorsAdd ''image is missing''),
        ValidateBlockTypesExist False, Trigger ErrorsRender]"
proof -
  have s: "\<not> skipValidation two_blocks" and ty: "typeErrors two_blocks False = []"
    and tr: "trace two_blocks = []"
    by (simp_all add: two_blocks_def)
  have er: "errors (snd (getData (JBool False) two_blocks)) = [validationFailMsg image_block]"
    unfolding getData_state resolved_two_blocks
    by (simp add: s ty block_saved_def text_block_def image_block_def)
  have "trace (snd (getData (JBool False) two_blocks)) =
       [Trigger ErrorsReset, StoreReset,
        BlockValid ''st-block-1'', BlockGetData ''st-block-1'',
        StoreAddData (block_getData text_block),
        BlockValid ''st-block-2'', Trigger (ErrorsAdd ''image is missing''),
        ValidateBlockTypesExist False, Trigger ErrorsRender]"
    unfolding getData_state pass_trace_def resolved_two_blocks
    by (simp add: s ty tr block_actions_def text_block_def image_block_def)
  moreover have "r_errors (fst (getData (JBool False) two_blocks)) = 1"
    unfolding getData_fst by (simp add: er)
  ultimately show ?thesis
    using s ty er by simp
qed

text \<open>
  C1, amended: when the global \<^verbatim>\<open>skipValidation\<close> is on, \<^verbatim>\<open>getData(false)\<close> reports
  no per-block validation error: the per-block step calls no \<^verbatim>\<open>valid()\<close>, emits no
  \<^verbatim>\<open>errors:add\<close> and saves every registered block, and the returned error count holds
  only the errors of the block-type check. When \<^verbatim>\<open>skipValidation\<close> is off, the
  per-block step of \<^verbatim>\<open>getData(false)\<close> is that of \<^verbatim>\<open>getData(true)\<close>.
\<close>

theorem getData_false_when_validation_skipped:
  "(skipValidation e \<longrightarrow>
      errors (validateBlocks False e) = errors e
      \<and> store (validateBlocks False e) =
          store e @ map block_getData (resolved (querySelectorAll e) e)
      \<and> trace (validateBlocks False e) =
          trace e @ concat (map (\<lambda>b. [BlockGetData (blockID b), StoreAddData (block_getData b)])
                              (resolved (querySelectorAll e) e))
      \<and> errors (snd (getData (JBool False) e)) = typeErrors e False
      \<and> r_errors (fst (getData (JBool False) e)) = length (typeErrors e False))
   \<and> (\<not> skipValidation e \<longrightarrow> validateBlocks False e = validateBlocks True e)"
proof (intro conjI impI)
  assume s: "skipValidation e"
  have sv: "block_saved True False = (\<lambda>b. True)"
    by (simp add: block_saved_def fun_eq_iff)
  have ba: "block_actions True False = (\<lambda>b. [BlockGetData (blockID b), StoreAddData (block_getData b)])"
    by (simp add: block_actions_def fun_eq_iff)
  show "errors (validateBlocks False e) = errors e"
    unfolding validateBlocks_eq by (simp add: s sv)
  show "store (validateBlocks False e) = store e @ map block_getData (resolved (querySelectorAll e) e)"
    unfolding validateBlocks_eq by (simp add: s sv)
  show "trace (validateBlocks False e) =
          trace e @ concat (map (\<lambda>b. [BlockGetData (blockID b), StoreAddData (block_getData b)])
                              (resolved (querySelectorAll e) e))"
    unfolding validateBlocks_eq by (simp add: s ba)
  show er: "errors (snd (getData (JBool False) e)) = typeErrors e False"
    unfolding getData_state by (simp add: s sv)
  show "r_errors (fst (getData (JBool False) e)) = length (typeErrors e False)"
    unfolding getData_fst by (simp add: er)
next
  assume s: "\<not> skipValidation e"
  have sv: "block_saved False False = block_saved False True"
    by (simp add: block_saved_def fun_eq_iff)
  have ba: "block_actions False False = block_actions False True"
    by (simp add: block_actions_def fun_eq_iff)
  show "validateBlocks False e = validateBlocks True e"
    unfolding validateBlocks_eq by (simp add: s sv ba)
qed

theorem getData_false_when_validation_skipped_witness:
  "skipValidation (two_blocks\<lparr>skipValidation := True\<rparr>)
   \<and> r_errors (fst (getData (JBool False) (two_blocks\<lparr>skipValidation := True\<rparr>))) = 0
   \<and> errors (validateBlocks False (two_blocks\<lparr>skipValidation := True\<rparr>)) = []
   \<and> \<not> skipValidation two_blocks
   \<and> validateBlocks False two_blocks = validateBlocks True two_blocks"
proof -
  let ?e = "two_blocks\<lparr>skipValidation := True\<rparr>"
  have s: "skipValidation ?e"
    by simp
  have n: "\<not> skipValidation two_blocks"
    by (simp add: two_blocks_def)
  have ty: "typeErrors two_blocks False = []" and er: "errors two_blocks = []"
    by (simp_all add: two_blocks_def)
  note w = getData_false_when_validation_skipped [of ?e]
  have "r_errors (fst (getData (JBool False) ?e)) = length (typeErrors ?e False)"
    using w s by blast
  moreover have "errors (validateBlocks False ?e) = errors ?e"
    using w s by blast
  moreover have "validateBlocks False two_blocks = validateBlocks True two_blocks"
    using getData_false_when_validation_skipped [of two_blocks] n by blast
  ultimately show ?thesis
    using s n by (simp add: ty er)
qed

section \<open>Nodes that resolve to no block\<close>

text \<open>
  C10: during a validation pass, a block node whose id attribute resolves to no block of
  the registry is passed over: no validity check runs for it, nothing is appended to the
  store, no error is recorded, and the pass goes on with the remaining nodes. The pass
  over a wrapper with such a node is the pass over the wrapper without it.
\<close>

theorem validateBlocks_skips_unregistered:
  assumes "findBlockById (id_attr n) e = None"
  shows "validateBlocks_loop (n # ns) sv e = validateBlocks_loop ns sv e
       \<and> validateBlocks sv (e\<lparr>wrapper := ns1 @ n # ns2\<rparr>) =
           (validateBlocks sv (e\<lparr>wrapper := ns1 @ ns2\<rparr>))\<lparr>wrapper := ns1 @ n # ns2\<rparr>"
proof
  show "validateBlocks_loop (n # ns) sv e = validateBlocks_loop ns sv e"
    using assms by simp
next
  let ?with = "e\<lparr>wrapper := ns1 @ n # ns2\<rparr>"
  let ?without = "e\<lparr>wrapper := ns1 @ ns2\<rparr>"
  have f1: "resolved ms ?with = resolved ms e" for ms
    by (rule resolved_frame) simp
  have f2: "resolved ms ?without = resolved ms e" for ms
    by (rule resolved_frame) simp
  show "validateBlocks sv ?with = (validateBlocks sv ?without)\<lparr>wrapper := ns1 @ n # ns2\<rparr>"
    unfolding validateBlocks_eq querySelectorAll_def f1 f2
    using assms by (simp add: resolved_append resolved_Cons)
qed

theorem validateBlocks_skips_unregistered_witness:
  "findBlockById (id_attr stray_node) two_blocks = None
   \<and> validateBlocks True (two_blocks\<lparr>wrapper := [controls_node, text_node] @ stray_node # [image_node]\<rparr>) =
       (validateBlocks True (two_blocks\<lparr>wrapper := [controls_node, text_node] @ [image_node]\<rparr>))
         \<lparr>wrapper := [controls_node, text_node] @ stray_node # [image_node]\<rparr>
   \<and> validateBlocks_loop [stray_node] True two_blocks = two_blocks"
proof -
  have h: "findBlockById (id_attr stray_node) two_blocks = None"
    by (simp add: findBlockById_def bm_findBlockById_def two_blocks_def stray_node_def
        text_block_def image_block_def)
  show ?thesis
    using h validateBlocks_skips_unregistered [OF h, of "[]" True "[controls_node, text_node]" "[image_node]"]
    by simp
qed

section \<open>Initial blocks\<close>

lemma createBlocks_loop_trace:
  "trace (createBlocks_loop bs e) =
     trace e @ map (\<lambda>b. Trigger (BlockCreate (JStr (bd_type b)) (bd_data b))) bs"
  by (induction bs arbitrary: e) (simp_all add: trigger_def act_def)

text \<open>
  C8: when the retrieved store has at least one entry, \<^verbatim>\<open>createBlocks\<close> emits one
  \<^verbatim>\<open>block:create\<close> per entry, with that entry's type and data, in the stored order, and
  nothing else; when the store is empty and \<^verbatim>\<open>defaultType\<close> is not \<^verbatim>\<open>false\<close>, it
  emits one \<^verbatim>\<open>block:create\<close> with the default type and empty data; when the store is
  empty and \<^verbatim>\<open>defaultType\<close> is \<^verbatim>\<open>false\<close>, it emits nothing.
\<close>

theorem createBlocks_events:
  "trace (createBlocks e) =
     trace e @
     (if store e \<noteq> [] then
        map (\<lambda>b. Trigger (BlockCreate (JStr (bd_type b)) (bd_data b))) (store e)
      else if defaultType e \<noteq> JBool False then [Trigger (BlockCreate (defaultType e) [])]
      else [])"
  by (simp add: createBlocks_def Let_def createBlocks_loop_trace trigger_def act_def)

section \<open>Teardown order\<close>

lemma trigger_BlockRemove:
  "trigger (BlockRemove i) e =
     e\<lparr>block_manager := removeBlock e i (block_manager e),
       trace := trace e @ [Trigger (BlockRemove i)]\<rparr>"
  by (simp add: trigger_def act_def)

lemma forEach_remove_frame:
  assumes frame: "\<And>i r. arrays (h i r) a = arrays r a"
  shows "removeBlock e = h \<Longrightarrow> arrays (block_manager e) a = xs \<Longrightarrow>
     \<forall>k \<in> set ks. k < length xs \<Longrightarrow>
     forEach_remove a ks e =
       e\<lparr>block_manager := fold (\<lambda>k. h (blockID (xs ! k))) ks (block_manager e),
         trace := trace e @ map (\<lambda>k. Trigger (BlockRemove (blockID (xs ! k)))) ks\<rparr>"
proof (induction ks arbitrary: e)
  case Nil
  then show ?case by simp
next
  case (Cons k ks)
  let ?e1 = "trigger (BlockRemove (blockID (xs ! k))) e"
  have k: "k < length xs"
    using Cons.prems by simp
  have step: "forEach_remove a (k # ks) e = forEach_remove a ks ?e1"
    using k Cons.prems by simp
  have h1: "removeBlock ?e1 = h"
    using Cons.prems by (simp add: trigger_BlockRemove)
  have a1: "arrays (block_manager ?e1) a = xs"
    using Cons.prems by (simp add: trigger_BlockRemove frame)
  have rest: "\<forall>k \<in> set ks. k < length xs"
    using Cons.prems by simp
  show ?case
    unfolding step Cons.IH [OF h1 a1 rest]
    using Cons.prems by (simp add: trigger_BlockRemove)
qed

lemma forEach_remove_only_removes:
  "\<exists>ids. length ids \<le> length ks
     \<and> trace (forEach_remove a ks e) = trace e @ map (\<lambda>i. Trigger (BlockRemove i)) ids
     \<and> store (forEach_remove a ks e) = store e"
proof (induction ks arbitrary: e)
  case Nil
  show ?case by (rule exI [of _ "[]"]) simp
next
  case (Cons k ks)
  show ?case
  proof (cases "k < length (arrays (block_manager e) a)")
    case True
    let ?i = "blockID (arrays (block_manager e) a ! k)"
    from Cons.IH [of "trigger (BlockRemove ?i) e"]
    obtain ids where ids: "length ids \<le> length ks"
      "trace (forEach_remove a ks (trigger (BlockRemove ?i) e)) =
         trace (trigger (BlockRemove ?i) e) @ map (\<lambda>i. Trigger (BlockRemove i)) ids"
      "store (forEach_remove a ks (trigger (BlockRemove ?i) e)) = store (trigger (BlockRemove ?i) e)"
      by blast
    show ?thesis
      by (rule exI [of _ "?i # ids"]) (use True ids in \<open>simp add: trigger_BlockRemove\<close>)
  next
    case False
    from Cons.IH [of e] obtain ids where "length ids \<le> length ks"
      "trace (forEach_remove a ks e) = trace e @ map (\<lambda>i. Trigger (BlockRemove i)) ids"
      "store (forEach_remove a ks e) = store e"
      by blast
    then show ?thesis
      by (intro exI [of _ ids]) (use False in simp)
  qed
qed

text \<open>
  C6 as stated fails: the loop of \<^verbatim>\<open>destroy\<close> runs over the registry's array itself,
  not over a snapshot. With a \<^verbatim>\<open>block:remove\<close> handler that takes the block out of
  that array in place, the second of two live blocks never gets its \<^verbatim>\<open>block:remove\<close>.
\<close>

theorem destroy_snapshot_counterexample:
  "bm_blocks splicing = [image_block, text_block]
   \<and> blockID text_block = ''st-block-1''
   \<and> trace (destroy splicing) =
       [FormatBarDestroy, FlBlockControlsDestroy, BlockControlsDestroy,
        Trigger (BlockRemove ''st-block-2''),
        Trigger Destroy, MediatorStopListening, StopListening, StoreReset, DomReplaceWith]"
  by (simp add: destroy_def Let_def splicing_def two_blocks_def bm_blocks_def act_def
      trigger_def store_reset_def remove_in_place_def upt_rec image_block_def text_block_def)

text \<open>
  C6, amended: every call of \<^verbatim>\<open>destroy()\<close> destroys the format bar, then the floating
  block controls, then the block controls, then emits \<^verbatim>\<open>block:remove\<close> events by a
  \<^verbatim>\<open>forEach\<close> over the registry's array itself (at most one event for each index the
  array had when the loop started), then emits \<^verbatim>\<open>destroy\<close>, then stops listening on the
  mediator and on the instance, then resets the store, then puts the original element back
  in place of the wrapper. When no \<^verbatim>\<open>block:remove\<close> handler changes that array object in
  place (it may set the registry's \<^verbatim>\<open>blocks\<close> property to another array), there is
  exactly one \<^verbatim>\<open>block:remove\<close> for every block of the registry, in the registry's order.
\<close>

theorem destroy_order:
  "(\<exists>ids. length ids \<le> length (bm_blocks e)
      \<and> trace (destroy e) =
          trace e @ [FormatBarDestroy, FlBlockControlsDestroy, BlockControlsDestroy]
          @ map (\<lambda>i. Trigger (BlockRemove i)) ids
          @ [Trigger Destroy, MediatorStopListening, StopListening, StoreReset, DomReplaceWith])
   \<and> store (destroy e) = []
   \<and> ((\<forall>i r. arrays (removeBlock e i r) (blocks (block_manager e)) =
               arrays r (blocks (block_manager e))) \<longrightarrow>
        trace (destroy e) =
          trace e @ [FormatBarDestroy, FlBlockControlsDestroy, BlockControlsDestroy]
          @ map (\<lambda>b. Trigger (BlockRemove (blockID b))) (bm_blocks e)
          @ [Trigger Destroy, MediatorStopListening, StopListening, StoreReset, DomReplaceWith])"
proof -
  let ?a = "blocks (block_manager e)"
  let ?xs = "arrays (block_manager e) ?a"
  let ?e3 = "act BlockControlsDestroy (act FlBlockControlsDestroy (act FormatBarDestroy e))"
  let ?e4 = "forEach_remove ?a [0 ..< length ?xs] ?e3"
  have e3: "?e3 = e\<lparr>trace := trace e @ [FormatBarDestroy, FlBlockControlsDestroy, BlockControlsDestroy]\<rparr>"
    by (simp add: act_def)
  have d: "destroy e =
      act DomReplaceWith (store_reset (act StopListening (act MediatorStopListening
        (trigger Destroy ?e4))))"
    by (simp add: destroy_def Let_def act_def)
  have tail: "trace (destroy e) =
      trace ?e4 @ [Trigger Destroy, MediatorStopListening, StopListening, StoreReset, DomReplaceWith]"
    unfolding d by (simp add: act_def store_reset_def trigger_def)
  have st: "store (destroy e) = []"
    unfolding d by (simp add: act_def store_reset_def trigger_def)
  obtain ids where ids: "length ids \<le> length [0 ..< length ?xs]"
    "trace ?e4 = trace ?e3 @ map (\<lambda>i. Trigger (BlockRemove i)) ids"
    using forEach_remove_only_removes [where a = ?a and ks = "[0 ..< length ?xs]" and e = ?e3] by blast
  have part1: "\<exists>ids. length ids \<le> length (bm_blocks e)
      \<and> trace (destroy e) =
          trace e @ [FormatBarDestroy, FlBlockControlsDestroy, BlockControlsDestroy]
          @ map (\<lambda>i. Trigger (BlockRemove i)) ids
          @ [Trigger Destroy, MediatorStopListening, StopListening, StoreReset, DomReplaceWith]"
    by (rule exI [of _ ids]) (use ids in \<open>simp add: tail bm_blocks_def e3\<close>)
  have part2: "trace (destroy e) =
          trace e @ [FormatBarDestroy, FlBlockControlsDestroy, BlockControlsDestroy]
          @ map (\<lambda>b. Trigger (BlockRemove (blockID b))) (bm_blocks e)
          @ [Trigger Destroy, MediatorStopListening, StopListening, StoreReset, DomReplaceWith]"
    if frame: "\<forall>i r. arrays (removeBlock e i r) ?a = arrays r ?a"
  proof -
    have f: "\<And>i r. arrays (removeBlock e i r) ?a = arrays r ?a"
      using frame by blast
    have "trace ?e4 = trace ?e3 @ map (\<lambda>k. Trigger (BlockRemove (blockID (?xs ! k)))) [0 ..< length ?xs]"
      by (subst forEach_remove_frame [where h = "removeBlock e" and xs = ?xs, OF f])
        (simp_all add: e3)
    also have "map (\<lambda>k. Trigger (BlockRemove (blockID (?xs ! k)))) [0 ..< length ?xs] =
        map (\<lambda>b. Trigger (BlockRemove (blockID b))) (map (\<lambda>k. ?xs ! k) [0 ..< length ?xs])"
      by simp
    also have "map (\<lambda>k. ?xs ! k) [0 ..< length ?xs] = ?xs"
      by (rule map_nth)
    finally show ?thesis
      by (simp add: tail bm_blocks_def e3)
  qed
  show ?thesis
    using part1 st part2 by blast
qed

theorem destroy_order_witness:
  "(\<forall>i r. arrays (removeBlock two_blocks i r) (blocks (block_manager two_blocks)) =
            arrays r (blocks (block_manager two_blocks)))
   \<and> trace (destroy two_blocks) =
       [FormatBarDestroy, FlBlockControlsDestroy, BlockControlsDestroy,
        Trigger (BlockRemove ''st-block-2''), Trigger (BlockRemove ''st-block-1''),
        Trigger Destroy, MediatorStopListening, StopListening, StoreReset, DomReplaceWith]"
proof -
  have f: "\<forall>i r. arrays (removeBlock two_blocks i r) (blocks (block_manager two_blocks)) =
            arrays r (blocks (block_manager two_blocks))"
    by (simp add: two_blocks_def remove_by_copy_def)
  have b: "bm_blocks two_blocks = [image_block, text_block]" and t: "trace two_blocks = []"
    by (simp_all add: bm_blocks_def two_blocks_def)
  show ?thesis
    using f destroy_order [of two_blocks]
    by (simp add: b t image_block_def text_block_def)
qed

section \<open>Reordering\<close>

lemma js_index_Some: "js_index xs i = Some x \<Longrightarrow> x \<in> set xs"
  by (auto simp add: js_index_def split: if_splits)

lemma querySelectorAll_subset: "set (querySelectorAll e) \<subseteq> set (wrapper e)"
  by (simp add: querySelectorAll_def)

lemma getBlockPosition_loop_absent:
  "b \<notin> set xs \<Longrightarrow> getBlockPosition_loop b xs k idx = idx"
  by (induction xs arbitrary: k idx) auto

lemma getBlockPosition_loop_at:
  "distinct xs \<Longrightarrow> i < length xs \<Longrightarrow> xs ! i = b \<Longrightarrow>
     getBlockPosition_loop b xs k idx = Some (k + i)"
proof (induction xs arbitrary: i k idx)
  case Nil
  then show ?case by simp
next
  case (Cons x xs)
  show ?case
  proof (cases i)
    case 0
    then have "x = b" and "b \<notin> set xs"
      using Cons.prems by auto
    then show ?thesis
      using 0 by (simp add: getBlockPosition_loop_absent)
  next
    case (Suc j)
    then have j: "j < length xs" "xs ! j = b" "distinct xs"
      using Cons.prems by auto
    then have "b \<in> set xs"
      by auto
    then have "x \<noteq> b"
      using Cons.prems(1) by auto
    then show ?thesis
      using Cons.IH [OF j(3) j(1) j(2), of "Suc k" idx] Suc by simp
  qed
qed

lemma js_gt_getBlockPosition:
  assumes "distinct (querySelectorAll e)"
  shows "js_gt (getBlockPosition b e) n =
     (\<exists>i. i < length (querySelectorAll e) \<and> querySelectorAll e ! i = b \<and> n < int i)"
proof (cases "b \<in> set (querySelectorAll e)")
  case False
  then have "getBlockPosition b e = None"
    by (simp add: getBlockPosition_def getBlockPosition_loop_absent)
  moreover have "\<not> (\<exists>i. i < length (querySelectorAll e) \<and> querySelectorAll e ! i = b \<and> n < int i)"
    using False by auto
  ultimately show ?thesis
    by (simp add: js_gt_def)
next
  case True
  then obtain i where i: "i < length (querySelectorAll e)" "querySelectorAll e ! i = b"
    by (auto simp add: in_set_conv_nth)
  have g: "getBlockPosition b e = Some i"
    using getBlockPosition_loop_at [OF assms i, of 0 None] by (simp add: getBlockPosition_def)
  have uniq: "j = i" if "j < length (querySelectorAll e)" "querySelectorAll e ! j = b" for j
    using that i nth_eq_iff_index_eq [OF assms, of j i] by simp
  have "(\<exists>k. k < length (querySelectorAll e) \<and> querySelectorAll e ! k = b \<and> n < int k) = (n < int i)"
  proof
    assume "\<exists>k. k < length (querySelectorAll e) \<and> querySelectorAll e ! k = b \<and> n < int k"
    then obtain k where k: "k < length (querySelectorAll e)" "querySelectorAll e ! k = b" "n < int k"
      by blast
    from uniq [OF k(1,2)] k(3) show "n < int i"
      by simp
  next
    assume "n < int i"
    with i show "\<exists>k. k < length (querySelectorAll e) \<and> querySelectorAll e ! k = b \<and> n < int k"
      by blast
  qed
  then show ?thesis
    by (simp add: g js_gt_def)
qed

lemma split_at:
  "t \<in> set ys \<Longrightarrow>
     \<exists>post. dropWhile (\<lambda>n. n \<noteq> t) ys = t # post
       \<and> ys = takeWhile (\<lambda>n. n \<noteq> t) ys @ t # post"
proof -
  assume t: "t \<in> set ys"
  then have ne: "dropWhile (\<lambda>n. n \<noteq> t) ys \<noteq> []"
    by (auto simp add: dropWhile_eq_Nil_conv)
  then obtain x post where d: "dropWhile (\<lambda>n. n \<noteq> t) ys = x # post"
    by (cases "dropWhile (\<lambda>n. n \<noteq> t) ys") auto
  have "\<not> (hd (dropWhile (\<lambda>n. n \<noteq> t) ys) \<noteq> t)"
    using ne by (rule hd_dropWhile)
  then have "x = t"
    using d by simp
  moreover have "ys = takeWhile (\<lambda>n. n \<noteq> t) ys @ dropWhile (\<lambda>n. n \<noteq> t) ys"
    by simp
  ultimately show ?thesis
    using d by auto
qed

lemma detach_keeps:
  assumes "t \<in> set xs" "t \<noteq> b" "t \<notin> set (inside d xs b)"
  shows "t \<in> set (detach d xs b)"
proof -
  let ?tl = "drop 1 (dropWhile (\<lambda>n. n \<noteq> b) xs)"
  have "set xs = set (takeWhile (\<lambda>n. n \<noteq> b) xs) \<union> set (dropWhile (\<lambda>n. n \<noteq> b) xs)"
    by (metis set_append takeWhile_dropWhile_id)
  moreover have "set (dropWhile (\<lambda>n. n \<noteq> b) xs) \<subseteq> {b} \<union> set ?tl"
  proof (cases "dropWhile (\<lambda>n. n \<noteq> b) xs")
    case Nil
    then show ?thesis by (simp only: list.set) simp
  next
    case (Cons x rest)
    have "\<not> (hd (dropWhile (\<lambda>n. n \<noteq> b) xs) \<noteq> b)"
      by (rule hd_dropWhile) (simp add: Cons)
    then show ?thesis
      by (simp add: Cons)
  qed
  moreover have "set ?tl = set (takeWhile (\<lambda>n. d b < d n) ?tl) \<union> set (dropWhile (\<lambda>n. d b < d n) ?tl)"
    by (metis set_append takeWhile_dropWhile_id)
  ultimately have "t \<in> set (takeWhile (\<lambda>n. n \<noteq> b) xs) \<or> t \<in> set (dropWhile (\<lambda>n. d b < d n) ?tl)"
    using assms by (auto simp add: inside_def)
  then show ?thesis
    by (auto simp add: detach_def)
qed

lemma hideAllTheThings_dom:
  "wrapper (hideAllTheThings e) = wrapper e"
  "nesting (hideAllTheThings e) = nesting e"
  "block_manager (hideAllTheThings e) = block_manager e"
  by (simp_all add: hideAllTheThings_def act_def)


lemma dom_insertBefore_result:
  assumes "t \<in> set (wrapper e)" "t \<noteq> b" "t \<notin> set (inside (nesting e) (wrapper e) b)"
  shows "\<exists>e' pre post. dom_insertBefore b t e = Inr e'
     \<and> detach (nesting e) (wrapper e) b = pre @ t # post
     \<and> wrapper e' = pre @ (b # inside (nesting e) (wrapper e) b) @ t # post
     \<and> nesting e' b = nesting e t
     \<and> block_manager e' = block_manager e
     \<and> trace e' = trace e"
proof -
  let ?rest = "detach (nesting e) (wrapper e) b"
  let ?seg = "b # inside (nesting e) (wrapper e) b"
  let ?e' = "e\<lparr>wrapper := takeWhile (\<lambda>n. n \<noteq> t) ?rest @ ?seg @ dropWhile (\<lambda>n. n \<noteq> t) ?rest,
              nesting := moved_nesting e b t\<rparr>"
  have "t \<in> set ?rest"
    using assms by (rule detach_keeps)
  from split_at [OF this] obtain post where
    post: "dropWhile (\<lambda>n. n \<noteq> t) ?rest = t # post"
      "?rest = takeWhile (\<lambda>n. n \<noteq> t) ?rest @ t # post"
    by blast
  have r: "dom_insertBefore b t e = Inr ?e'"
    using assms by (simp add: dom_insertBefore_def Let_def)
  have w: "wrapper ?e' = takeWhile (\<lambda>n. n \<noteq> t) ?rest @ ?seg @ t # post"
    by (simp add: post(1))
  have n: "nesting ?e' b = nesting e t"
    by (simp add: moved_nesting_def)
  show ?thesis
    using r post(2) w n
    by (intro exI [of _ ?e'] exI [of _ "takeWhile (\<lambda>n. n \<noteq> t) ?rest"] exI [of _ post]) simp
qed

lemma dom_insertAfter_result:
  assumes "t \<in> set (wrapper e)" "t \<noteq> b" "t \<notin> set (inside (nesting e) (wrapper e) b)"
  shows "\<exists>e' pre post. dom_insertAfter b t e = Inr e'
     \<and> detach (nesting e) (wrapper e) b =
         pre @ (t # inside (nesting e) (detach (nesting e) (wrapper e) b) t) @ post
     \<and> wrapper e' =
         pre @ (t # inside (nesting e) (detach (nesting e) (wrapper e) b) t)
         @ (b # inside (nesting e) (wrapper e) b) @ post
     \<and> nesting e' b = nesting e t
     \<and> block_manager e' = block_manager e
     \<and> trace e' = trace e"
proof -
  let ?rest = "detach (nesting e) (wrapper e) b"
  let ?seg = "b # inside (nesting e) (wrapper e) b"
  let ?deeper = "\<lambda>n. nesting e t < nesting e n"
  let ?e' = "e\<lparr>wrapper := takeWhile (\<lambda>n. n \<noteq> t) ?rest
                @ take 1 (dropWhile (\<lambda>n. n \<noteq> t) ?rest)
                @ inside (nesting e) ?rest t
                @ ?seg
                @ dropWhile ?deeper (drop 1 (dropWhile (\<lambda>n. n \<noteq> t) ?rest)),
              nesting := moved_nesting e b t\<rparr>"
  have "t \<in> set ?rest"
    using assms by (rule detach_keeps)
  from split_at [OF this] obtain post0 where
    post: "dropWhile (\<lambda>n. n \<noteq> t) ?rest = t # post0"
      "?rest = takeWhile (\<lambda>n. n \<noteq> t) ?rest @ t # post0"
    by blast
  have i: "inside (nesting e) ?rest t = takeWhile ?deeper post0"
    by (simp add: inside_def post(1))
  have r: "dom_insertAfter b t e = Inr ?e'"
    using assms by (simp add: dom_insertAfter_def Let_def)
  have w: "wrapper ?e' = takeWhile (\<lambda>n. n \<noteq> t) ?rest @ (t # inside (nesting e) ?rest t)
      @ ?seg @ dropWhile ?deeper post0"
    by (simp add: post(1))
  have d: "?rest = takeWhile (\<lambda>n. n \<noteq> t) ?rest @ (t # inside (nesting e) ?rest t)
      @ dropWhile ?deeper post0"
    using post(2) by (simp add: i)
  have n: "nesting ?e' b = nesting e t"
    by (simp add: moved_nesting_def)
  have "dom_insertAfter b t e = Inr ?e'
     \<and> ?rest = takeWhile (\<lambda>n. n \<noteq> t) ?rest @ (t # inside (nesting e) ?rest t)
         @ dropWhile ?deeper post0
     \<and> wrapper ?e' = takeWhile (\<lambda>n. n \<noteq> t) ?rest @ (t # inside (nesting e) ?rest t)
         @ ?seg @ dropWhile ?deeper post0
     \<and> nesting ?e' b = nesting e t
     \<and> block_manager ?e' = block_manager e
     \<and> trace ?e' = trace e"
    using r d w n by simp
  then show ?thesis
    by (intro exI [of _ ?e'] exI [of _ "takeWhile (\<lambda>n. n \<noteq> t) ?rest"]
        exI [of _ "dropWhile ?deeper post0"])
qed


lemma changeBlockPosition_target:
  assumes t: "js_index (querySelectorAll e) (p - 1) = Some t"
    and ne: "id_attr t \<noteq> id_attr b"
  shows "changeBlockPosition b p e =
     (if js_gt (getBlockPosition b e) (p - 1) then dom_insertBefore b t (hideAllTheThings e)
      else dom_insertAfter b t (hideAllTheThings e))"
  using t ne by (simp add: changeBlockPosition_def Let_def)

text \<open>
  C7: for a call \<^verbatim>\<open>changeBlockPosition(block, selectedPosition)\<close> with a 1-indexed
  position: when the target slot (0-indexed) holds no node, or holds the block itself, the
  editor is left unchanged and no error occurs; otherwise, when the index of the block among
  the block nodes is greater than the target index, the block is inserted before the node
  in the target slot, and otherwise after it; the registry's block collection is not
  changed. This holds where the block shares its id attribute with no other block node (a
  \<^verbatim>\<open>blockID\<close> is unique within the editor), the document lists every node once, and the
  node in the target slot does not lie inside the block (block nodes are rendered as
  siblings). "Inserted before": the block, with the nodes inside it, stands right in front
  of the target node and as deep as it; "inserted after": right behind the target node and
  the nodes inside that, and as deep as it.
\<close>

theorem changeBlockPosition_moves_block:
  assumes ids: "\<forall>t \<in> set (querySelectorAll e). id_attr t = id_attr b \<longrightarrow> t = b"
    and once: "distinct (wrapper e)"
    and apart: "\<forall>t. js_index (querySelectorAll e) (p - 1) = Some t \<longrightarrow>
                  t \<notin> set (inside (nesting e) (wrapper e) b)"
  shows "(js_index (querySelectorAll e) (p - 1) = None
          \<or> js_index (querySelectorAll e) (p - 1) = Some b \<longrightarrow>
            changeBlockPosition b p e = Inr e)
       \<and> (\<forall>t i. js_index (querySelectorAll e) (p - 1) = Some t \<and> t \<noteq> b
              \<and> i < length (querySelectorAll e) \<and> querySelectorAll e ! i = b \<and> p - 1 < int i \<longrightarrow>
            (\<exists>e' pre post. changeBlockPosition b p e = Inr e'
               \<and> detach (nesting e) (wrapper e) b = pre @ t # post
               \<and> wrapper e' = pre @ (b # inside (nesting e) (wrapper e) b) @ t # post
               \<and> nesting e' b = nesting e t
               \<and> block_manager e' = block_manager e))
       \<and> (\<forall>t. js_index (querySelectorAll e) (p - 1) = Some t \<and> t \<noteq> b
              \<and> (\<forall>i. i < length (querySelectorAll e) \<and> querySelectorAll e ! i = b \<longrightarrow>
                     int i \<le> p - 1) \<longrightarrow>
            (\<exists>e' pre post. changeBlockPosition b p e = Inr e'
               \<and> detach (nesting e) (wrapper e) b =
                   pre @ (t # inside (nesting e) (detach (nesting e) (wrapper e) b) t) @ post
               \<and> wrapper e' =
                   pre @ (t # inside (nesting e) (detach (nesting e) (wrapper e) b) t)
                   @ (b # inside (nesting e) (wrapper e) b) @ post
               \<and> nesting e' b = nesting e t
               \<and> block_manager e' = block_manager e))"
proof (intro conjI allI impI)
  assume "js_index (querySelectorAll e) (p - 1) = None
      \<or> js_index (querySelectorAll e) (p - 1) = Some b"
  then show "changeBlockPosition b p e = Inr e"
    by (auto simp add: changeBlockPosition_def Let_def)
next
  have nodes: "distinct (querySelectorAll e)"
    using once by (simp add: querySelectorAll_def)
  have target: "t \<in> set (wrapper (hideAllTheThings e)) \<and> id_attr t \<noteq> id_attr b
      \<and> t \<notin> set (inside (nesting (hideAllTheThings e)) (wrapper (hideAllTheThings e)) b)"
    if "js_index (querySelectorAll e) (p - 1) = Some t" "t \<noteq> b" for t
  proof -
    have "t \<in> set (querySelectorAll e)"
      using that(1) by (rule js_index_Some)
    moreover from this have "id_attr t \<noteq> id_attr b"
      using ids that(2) by blast
    moreover have "t \<notin> set (inside (nesting e) (wrapper e) b)"
      using apart that(1) by blast
    ultimately show ?thesis
      using querySelectorAll_subset [of e] by (auto simp add: hideAllTheThings_dom)
  qed
  {
    fix t i
    assume a: "js_index (querySelectorAll e) (p - 1) = Some t \<and> t \<noteq> b
        \<and> i < length (querySelectorAll e) \<and> querySelectorAll e ! i = b \<and> p - 1 < int i"
    then have gt: "js_gt (getBlockPosition b e) (p - 1)"
      unfolding js_gt_getBlockPosition [OF nodes] by blast
    note tg = target [of t]
    have c: "changeBlockPosition b p e = dom_insertBefore b t (hideAllTheThings e)"
      using changeBlockPosition_target [of e p t b] a tg gt by simp
    have "\<exists>e' pre post. dom_insertBefore b t (hideAllTheThings e) = Inr e'
        \<and> detach (nesting (hideAllTheThings e)) (wrapper (hideAllTheThings e)) b = pre @ t # post
        \<and> wrapper e' = pre @ (b # inside (nesting (hideAllTheThings e)) (wrapper (hideAllTheThings e)) b) @ t # post
        \<and> nesting e' b = nesting (hideAllTheThings e) t
        \<and> block_manager e' = block_manager (hideAllTheThings e)
        \<and> trace e' = trace (hideAllTheThings e)"
      by (rule dom_insertBefore_result) (use a tg in simp_all)
    then show "\<exists>e' pre post. changeBlockPosition b p e = Inr e'
        \<and> detach (nesting e) (wrapper e) b = pre @ t # post
        \<and> wrapper e' = pre @ (b # inside (nesting e) (wrapper e) b) @ t # post
        \<and> nesting e' b = nesting e t
        \<and> block_manager e' = block_manager e"
      unfolding c hideAllTheThings_dom by blast
  }
  {
    fix t
    assume a: "js_index (querySelectorAll e) (p - 1) = Some t \<and> t \<noteq> b
        \<and> (\<forall>i. i < length (querySelectorAll e) \<and> querySelectorAll e ! i = b \<longrightarrow> int i \<le> p - 1)"
    then have gt: "\<not> js_gt (getBlockPosition b e) (p - 1)"
      unfolding js_gt_getBlockPosition [OF nodes] by auto
    note tg = target [of t]
    have c: "changeBlockPosition b p e = dom_insertAfter b t (hideAllTheThings e)"
      using changeBlockPosition_target [of e p t b] a tg gt by simp
    have "\<exists>e' pre post. dom_insertAfter b t (hideAllTheThings e) = Inr e'
        \<and> detach (nesting (hideAllTheThings e)) (wrapper (hideAllTheThings e)) b =
            pre @ (t # inside (nesting (hideAllTheThings e))
                         (detach (nesting (hideAllTheThings e)) (wrapper (hideAllTheThings e)) b) t) @ post
        \<and> wrapper e' =
            pre @ (t # inside (nesting (hideAllTheThings e))
                         (detach (nesting (hideAllTheThings e)) (wrapper (hideAllTheThings e)) b) t)
            @ (b # inside (nesting (hideAllTheThings e)) (wrapper (hideAllTheThings e)) b) @ post
        \<and> nesting e' b = nesting (hideAllTheThings e) t
        \<and> block_manager e' = block_manager (hideAllTheThings e)
        \<and> trace e' = trace (hideAllTheThings e)"
      by (rule dom_insertAfter_result) (use a tg in simp_all)
    then show "\<exists>e' pre post. changeBlockPosition b p e = Inr e'
        \<and> detach (nesting e) (wrapper e) b =
            pre @ (t # inside (nesting e) (detach (nesting e) (wrapper e) b) t) @ post
        \<and> wrapper e' =
            pre @ (t # inside (nesting e) (detach (nesting e) (wrapper e) b) t)
            @ (b # inside (nesting e) (wrapper e) b) @ post
        \<and> nesting e' b = nesting e t
        \<and> block_manager e' = block_manager e"
      unfolding c hideAllTheThings_dom by blast
  }
qed

text \<open>A child of the wrapper lies inside no node.\<close>

lemma children_apart: "d t = 0 \<Longrightarrow> t \<notin> set (inside d xs b)"
  by (auto simp add: inside_def dest: set_takeWhileD)

lemma nodes_distinct:
  "controls_node \<noteq> text_node" "controls_node \<noteq> image_node" "text_node \<noteq> image_node"
  "text_content \<noteq> controls_node" "text_content \<noteq> text_node" "text_content \<noteq> image_node"
  by (simp_all add: controls_node_def text_node_def image_node_def text_content_def)

lemma with_content_nodes: "querySelectorAll with_content = [text_node, image_node]"
  by (simp add: querySelectorAll_def with_content_def controls_node_def text_node_def
      image_node_def text_content_def)

lemma two_blocks_positions:
  "js_index (querySelectorAll two_blocks) (1 - 1) = Some text_node"
  "js_index (querySelectorAll two_blocks) (2 - 1) = Some image_node"
  "js_index (querySelectorAll two_blocks) (3 - 1) = None"
  by (simp_all add: querySelectorAll_two_blocks js_index_def)

text \<open>
  Where one block node lies inside another: moving the outer block behind the inner one is
  refused by the DOM, the inner block can be moved out in front of the outer one, and a
  block moved in front of the inner one becomes a child of the outer one.
\<close>

lemma changeBlockPosition_nested_examples:
  "querySelectorAll nested_blocks = [text_node, inner_node, image_node]
   \<and> changeBlockPosition text_node 2 nested_blocks = Inl HierarchyRequestError
   \<and> map_sum id (\<lambda>e. (wrapper e, map (nesting e) (wrapper e)))
         (changeBlockPosition inner_node 1 nested_blocks) =
       Inr ([controls_node, inner_node, text_node, image_node], [0, 0, 0, 0])
   \<and> map_sum id (\<lambda>e. (wrapper e, map (nesting e) (wrapper e)))
         (changeBlockPosition image_node 2 nested_blocks) =
       Inr ([controls_node, text_node, image_node, inner_node], [0, 0, 1, 1])
   \<and> map_sum id (\<lambda>e. (wrapper e, map (nesting e) (wrapper e)))
         (changeBlockPosition text_node 3 nested_blocks) =
       Inr ([controls_node, image_node, text_node, inner_node], [0, 0, 0, 1])"
  by (simp add: nested_blocks_def two_blocks_def querySelectorAll_def changeBlockPosition_def
      getBlockPosition_def js_index_def js_gt_def Let_def hideAllTheThings_def act_def
      dom_insertBefore_def dom_insertAfter_def inside_def detach_def moved_nesting_def
      controls_node_def text_node_def image_node_def inner_node_def)

theorem changeBlockPosition_moves_block_witness:
  "distinct (wrapper two_blocks)
   \<and> distinct (wrapper with_content)
   \<and> changeBlockPosition text_node 3 two_blocks = Inr two_blocks
   \<and> changeBlockPosition text_node 1 two_blocks = Inr two_blocks
   \<and> (\<exists>e'. changeBlockPosition image_node 1 two_blocks = Inr e'
         \<and> wrapper e' = [controls_node, image_node, text_node]
         \<and> bm_blocks e' = [image_block, text_block])
   \<and> (\<exists>e'. changeBlockPosition text_node 2 with_content = Inr e'
         \<and> wrapper e' = [controls_node, image_node, text_node, text_content]
         \<and> nesting e' text_node = 0)"
proof -
  have w: "wrapper two_blocks = [controls_node, text_node, image_node]"
    and n: "nesting two_blocks = (\<lambda>n. 0)"
    and bm: "arrays (block_manager two_blocks) (blocks (block_manager two_blocks)) =
      [image_block, text_block]"
    by (simp_all add: two_blocks_def)
  have wc: "wrapper with_content = [controls_node, text_node, text_content, image_node]"
    and nc: "nesting with_content = (\<lambda>n. if n = text_content then 1 else 0)"
    by (simp_all add: with_content_def)
  have once: "distinct (wrapper two_blocks)" and once_c: "distinct (wrapper with_content)"
    using nodes_distinct by (auto simp add: w wc)
  have ids_t: "\<forall>t \<in> set (querySelectorAll two_blocks). id_attr t = id_attr text_node \<longrightarrow> t = text_node"
    and ids_i: "\<forall>t \<in> set (querySelectorAll two_blocks). id_attr t = id_attr image_node \<longrightarrow> t = image_node"
    by (auto simp add: querySelectorAll_two_blocks text_node_def image_node_def)
  have ids_c: "\<forall>t \<in> set (querySelectorAll with_content). id_attr t = id_attr text_node \<longrightarrow> t = text_node"
    by (auto simp add: with_content_nodes text_node_def image_node_def)
  have apart: "\<forall>t. js_index (querySelectorAll two_blocks) (p - 1) = Some t \<longrightarrow>
      t \<notin> set (inside (nesting two_blocks) (wrapper two_blocks) b)" for p b
    by (simp add: n children_apart)
  have apart_c: "\<forall>t. js_index (querySelectorAll with_content) (2 - 1) = Some t \<longrightarrow>
      t \<notin> set (inside (nesting with_content) (wrapper with_content) text_node)"
  proof -
    have "nesting with_content image_node = 0"
      using nodes_distinct by (simp add: nc)
    then have "image_node \<notin> set (inside (nesting with_content) (wrapper with_content) text_node)"
      by (rule children_apart)
    then show ?thesis
      by (simp add: with_content_nodes js_index_def)
  qed
  note none = changeBlockPosition_moves_block [OF ids_t once apart, of 3]
  note same = changeBlockPosition_moves_block [OF ids_t once apart, of 1]
  note up = changeBlockPosition_moves_block [OF ids_i once apart, of 1]
  note down = changeBlockPosition_moves_block [OF ids_c once_c apart_c]
  have a: "changeBlockPosition text_node 3 two_blocks = Inr two_blocks"
    using none two_blocks_positions(3) by simp
  have b: "changeBlockPosition text_node 1 two_blocks = Inr two_blocks"
    using same two_blocks_positions(1) by simp
  have d_up: "detach (nesting two_blocks) (wrapper two_blocks) image_node =
      [controls_node, text_node]"
    and i_up: "inside (nesting two_blocks) (wrapper two_blocks) image_node = []"
    using nodes_distinct by (simp_all add: detach_def inside_def w n)
  have "\<exists>e' pre post. changeBlockPosition image_node 1 two_blocks = Inr e'
      \<and> detach (nesting two_blocks) (wrapper two_blocks) image_node = pre @ text_node # post
      \<and> wrapper e' = pre @ (image_node # inside (nesting two_blocks) (wrapper two_blocks) image_node)
          @ text_node # post
      \<and> nesting e' image_node = nesting two_blocks text_node
      \<and> block_manager e' = block_manager two_blocks"
    by (rule conjunct1 [OF conjunct2 [OF up], rule_format, of text_node 1])
      (simp add: querySelectorAll_two_blocks js_index_def nodes_distinct)
  then obtain e' pre post where u: "changeBlockPosition image_node 1 two_blocks = Inr e'"
    "[controls_node, text_node] = pre @ text_node # post"
    "wrapper e' = pre @ image_node # text_node # post"
    "block_manager e' = block_manager two_blocks"
    unfolding d_up i_up by auto
  from u(2) have "pre = [controls_node] \<and> post = []"
    using nodes_distinct(1) by (auto simp add: Cons_eq_append_conv)
  then have c: "\<exists>e'. changeBlockPosition image_node 1 two_blocks = Inr e'
      \<and> wrapper e' = [controls_node, image_node, text_node]
      \<and> bm_blocks e' = [image_block, text_block]"
    using u by (simp add: bm_blocks_def bm)
  have d_dn: "detach (nesting with_content) (wrapper with_content) text_node =
      [controls_node, image_node]"
    and i_dn: "inside (nesting with_content) (wrapper with_content) text_node = [text_content]"
    and i_im: "inside (nesting with_content) [controls_node, image_node] image_node = []"
    using nodes_distinct by (simp_all add: detach_def inside_def wc nc)
  have "\<exists>e' pre post. changeBlockPosition text_node 2 with_content = Inr e'
      \<and> detach (nesting with_content) (wrapper with_content) text_node =
          pre @ (image_node # inside (nesting with_content)
                   (detach (nesting with_content) (wrapper with_content) text_node) image_node) @ post
      \<and> wrapper e' =
          pre @ (image_node # inside (nesting with_content)
                   (detach (nesting with_content) (wrapper with_content) text_node) image_node)
          @ (text_node # inside (nesting with_content) (wrapper with_content) text_node) @ post
      \<and> nesting e' text_node = nesting with_content image_node
      \<and> block_manager e' = block_manager with_content"
    by (rule conjunct2 [OF conjunct2 [OF down], rule_format, of image_node])
      (use nodes_distinct(3) in \<open>auto simp add: with_content_nodes js_index_def\<close>)
  then obtain e'' pre' post' where v: "changeBlockPosition text_node 2 with_content = Inr e''"
    "[controls_node, image_node] = pre' @ image_node # post'"
    "wrapper e'' = pre' @ image_node # text_node # text_content # post'"
    "nesting e'' text_node = nesting with_content image_node"
    unfolding d_dn i_dn i_im by auto
  from v(2) have "pre' = [controls_node] \<and> post' = []"
    using nodes_distinct(2) by (auto simp add: Cons_eq_append_conv)
  then have d: "\<exists>e'. changeBlockPosition text_node 2 with_content = Inr e'
      \<and> wrapper e' = [controls_node, image_node, text_node, text_content]
      \<and> nesting e' text_node = 0"
    using v nodes_distinct by (simp add: nc)
  show ?thesis
    using once once_c a b c d by blast
qed

section \<open>Two editors on one page\<close>














section \<open>process waits for the queued items\<close>

lemma step_settled_before:
  "step c c' \<Longrightarrow> settled_before (fst c) \<Longrightarrow> settled_before (fst c')"
  by (induction rule: step.induct) (auto simp add: settled_before_def tick_def less_Suc_eq)

lemma step_keeps_fulfilled:
  "step c c' \<Longrightarrow> promises (fst c) d = Fulfilled t \<Longrightarrow> promises (fst c') d = Fulfilled t"
  by (induction rule: step.induct) (auto simp add: tick_def)

lemma step_from_Resolved:
  "step c c' \<Longrightarrow> snd c = Resolved r t \<Longrightarrow> snd c' = Resolved r t"
  by (induction rule: step.induct) auto

lemma step_to_Resolved:
  "step c c' \<Longrightarrow> snd c' = Resolved r t \<Longrightarrow>
     snd c = Resolved r t
     \<or> (\<exists>ds v. snd c = Waiting ds v \<and> r = fst (getData v (ed (fst c))) \<and> t = clock (fst c)
           \<and> (\<forall>d \<in> set ds. \<exists>t'. promises (fst c) d = Fulfilled t'))"
  by (induction rule: step.induct) auto

lemma step_from_Waiting:
  "step c c' \<Longrightarrow> snd c' = Waiting ds v \<Longrightarrow> snd c = Waiting ds v"
  by (induction rule: step.induct) auto

lemma upload_run:
  "step\<^sup>*\<^sup>* (upload_pending, process JUndefined upload_pending)
     (upload_ready, process JUndefined upload_pending)"
proof -
  let ?f = "process JUndefined upload_pending"
  let ?w1 = "tick (upload_pending\<lparr>promises := (promises upload_pending)(7 := Fulfilled (clock upload_pending))\<rparr>)"
  let ?w2 = "tick (?w1\<lparr>ed := upload_done\<rparr>)"
  have s1: "step (upload_pending, ?f) (?w1, ?f)"
    by (rule step.fulfil) (simp add: upload_pending_def)
  have s2: "step (?w1, ?f) (?w2, ?f)"
    by (rule step.other)
  have w2: "?w2 = upload_ready"
    by (simp add: tick_def upload_pending_def upload_ready_def fun_eq_iff)
  have "step\<^sup>*\<^sup>* (upload_pending, ?f) (?w2, ?f)"
    using s1 s2 by (meson rtranclp.rtrancl_into_rtrancl rtranclp.rtrancl_refl)
  then show ?thesis
    unfolding w2 .
qed

lemma upload_ready_next:
  "tick (upload_ready\<lparr>ed := snd (getData JUndefined (ed upload_ready))\<rparr>) = upload_resolved"
  "fst (getData JUndefined (ed upload_ready)) = fst (getData JUndefined upload_done)"
  "clock upload_ready = 2"
  by (simp_all add: tick_def upload_ready_def upload_resolved_def)

text \<open>
  C3: for a call \<^verbatim>\<open>process(v)\<close>, the returned promise is fulfilled only by its callback,
  which runs at a moment strictly later than the moment each deferred of the items queued
  at the call was fulfilled, and its value is the result of \<^verbatim>\<open>getData(v)\<close> on the editor
  as it is when the callback runs. And once every one of those deferreds is fulfilled, the
  callback can run.
\<close>

theorem process_resolves_after_queued_items:
  assumes wf: "settled_before w0"
  shows "(step\<^sup>*\<^sup>* (w0, process v w0) (w, Resolved r t) \<longrightarrow>
           (\<exists>w1. step\<^sup>*\<^sup>* (w0, process v w0) (w1, process v w0)
              \<and> step (w1, process v w0) (tick (w1\<lparr>ed := snd (getData v (ed w1))\<rparr>), Resolved r t)
              \<and> t = clock w1
              \<and> r = fst (getData v (ed w1))
              \<and> (\<forall>d \<in> set (map deferred (getBlockQueuedItems (ed w0))).
                    \<exists>t'. t' < t \<and> promises w1 d = Fulfilled t' \<and> promises w d = Fulfilled t')))
       \<and> (step\<^sup>*\<^sup>* (w0, process v w0) (w, process v w0)
            \<and> (\<forall>d \<in> set (map deferred (getBlockQueuedItems (ed w0))). \<exists>t'. promises w d = Fulfilled t') \<longrightarrow>
           step (w, process v w0)
             (tick (w\<lparr>ed := snd (getData v (ed w))\<rparr>), Resolved (fst (getData v (ed w))) (clock w)))"
proof (intro conjI impI)
  let ?ds = "map deferred (getBlockQueuedItems (ed w0))"
  let ?start = "(w0, process v w0)"
  let ?Q = "\<lambda>w r t. \<exists>w1. step\<^sup>*\<^sup>* ?start (w1, process v w0)
              \<and> step (w1, process v w0) (tick (w1\<lparr>ed := snd (getData v (ed w1))\<rparr>), Resolved r t)
              \<and> t = clock w1
              \<and> r = fst (getData v (ed w1))
              \<and> (\<forall>d \<in> set ?ds. \<exists>t'. t' < t \<and> promises w1 d = Fulfilled t' \<and> promises w d = Fulfilled t')"
  have inv: "settled_before (fst c)
      \<and> (\<forall>ds u. snd c = Waiting ds u \<longrightarrow> snd c = process v w0)
      \<and> (\<forall>r t. snd c = Resolved r t \<longrightarrow> ?Q (fst c) r t)"
    if "step\<^sup>*\<^sup>* ?start c" for c
    using that
  proof (induction rule: rtranclp_induct)
    case base
    then show ?case
      using wf by (simp add: process_def)
  next
    case (step y z)
    have wfy: "settled_before (fst y)" and wfz: "settled_before (fst z)"
      using step.IH step_settled_before [OF step.hyps(2)] by simp_all
    have waiting: "snd z = process v w0" if "snd z = Waiting ds u" for ds u
      using step_from_Waiting [OF step.hyps(2) that] step.IH that by simp
    have resolved: "?Q (fst z) r t" if z: "snd z = Resolved r t" for r t
    proof -
      from step_to_Resolved [OF step.hyps(2) z]
      consider (old) "snd y = Resolved r t"
        | (new) ds u where "snd y = Waiting ds u" "r = fst (getData u (ed (fst y)))"
            "t = clock (fst y)" "\<forall>d \<in> set ds. \<exists>t'. promises (fst y) d = Fulfilled t'"
        by blast
      then show ?thesis
      proof cases
        case old
        with step.IH obtain w1 where w1: "step\<^sup>*\<^sup>* ?start (w1, process v w0)"
          "step (w1, process v w0) (tick (w1\<lparr>ed := snd (getData v (ed w1))\<rparr>), Resolved r t)"
          "t = clock w1" "r = fst (getData v (ed w1))"
          "\<forall>d \<in> set ?ds. \<exists>t'. t' < t \<and> promises w1 d = Fulfilled t' \<and> promises (fst y) d = Fulfilled t'"
          by blast
        have "\<forall>d \<in> set ?ds. \<exists>t'. t' < t \<and> promises w1 d = Fulfilled t' \<and> promises (fst z) d = Fulfilled t'"
          using w1(5) step_keeps_fulfilled [OF step.hyps(2)] by blast
        with w1 show ?thesis by blast
      next
        case new
        have p: "snd y = process v w0"
          using step.IH new(1) by blast
        then have ds: "ds = ?ds" and u: "u = v"
          using new(1) by (simp_all add: process_def)
        have y: "y = (fst y, process v w0)"
          using p by (simp add: prod_eq_iff)
        have reach: "step\<^sup>*\<^sup>* ?start (fst y, process v w0)"
          using step.hyps(1) y by simp
        have all: "\<forall>d \<in> set ?ds. \<exists>t'. promises (fst y) d = Fulfilled t'"
          using new(4) ds by simp
        have cb: "step (fst y, process v w0)
            (tick ((fst y)\<lparr>ed := snd (getData v (ed (fst y)))\<rparr>), Resolved r t)"
          unfolding process_def new(2,3) u
          by (rule step.callback) (use all in simp)
        have "\<forall>d \<in> set ?ds. \<exists>t'. t' < t \<and> promises (fst y) d = Fulfilled t'
            \<and> promises (fst z) d = Fulfilled t'"
        proof
          fix d assume "d \<in> set ?ds"
          with all obtain t' where t': "promises (fst y) d = Fulfilled t'"
            by blast
          then have "t' < clock (fst y)"
            using wfy by (auto simp add: settled_before_def)
          moreover have "promises (fst z) d = Fulfilled t'"
            using step_keeps_fulfilled [OF step.hyps(2) t'] .
          ultimately show "\<exists>t'. t' < t \<and> promises (fst y) d = Fulfilled t'
              \<and> promises (fst z) d = Fulfilled t'"
            using t' new(3) by blast
        qed
        with reach cb new(2,3) u show ?thesis by blast
      qed
    qed
    show ?case
      using wfz waiting resolved by blast
  qed
  {
    assume "step\<^sup>*\<^sup>* ?start (w, Resolved r t)"
    from inv [OF this] show "?Q w r t"
      by simp
  }
  {
    assume a: "step\<^sup>*\<^sup>* ?start (w, process v w0)
        \<and> (\<forall>d \<in> set ?ds. \<exists>t'. promises w d = Fulfilled t')"
    show "step (w, process v w0)
        (tick (w\<lparr>ed := snd (getData v (ed w))\<rparr>), Resolved (fst (getData v (ed w))) (clock w))"
      unfolding process_def
      by (rule step.callback) (use a in simp)
  }
qed

theorem process_resolves_after_queued_items_witness:
  "settled_before upload_pending
   \<and> step\<^sup>*\<^sup>* (upload_pending, process JUndefined upload_pending)
        (upload_ready, process JUndefined upload_pending)
   \<and> promises upload_ready 7 = Fulfilled 0
   \<and> step (upload_ready, process JUndefined upload_pending)
        (upload_resolved, Resolved (fst (getData JUndefined upload_done)) 2)
   \<and> (\<exists>t'. t' < 2 \<and> promises upload_resolved 7 = Fulfilled t')
   \<and> r_canSubmit (fst (getData JUndefined upload_done))"
proof -
  let ?f = "process JUndefined upload_pending"
  let ?r = "fst (getData JUndefined upload_done)"
  have wf: "settled_before upload_pending"
    by (simp add: settled_before_def upload_pending_def)
  have ds: "map deferred (getBlockQueuedItems (ed upload_pending)) = [7]"
    by (simp add: upload_pending_def getBlockQueuedItems_def one_upload_def)
  have p: "promises upload_ready 7 = Fulfilled 0"
    by (simp add: upload_ready_def)
  have ready: "step\<^sup>*\<^sup>* (upload_pending, ?f) (upload_ready, ?f)
      \<and> (\<forall>d \<in> set (map deferred (getBlockQueuedItems (ed upload_pending))).
            \<exists>t'. promises upload_ready d = Fulfilled t')"
    using upload_run by (simp add: ds p)
  have cb: "step (upload_ready, ?f) (upload_resolved, Resolved ?r 2)"
    using mp [OF conjunct2 [OF process_resolves_after_queued_items
              [OF wf, of JUndefined upload_ready ?r 2]] ready]
    by (simp add: upload_ready_next)
  have run: "step\<^sup>*\<^sup>* (upload_pending, ?f) (upload_resolved, Resolved ?r 2)"
    using upload_run cb by (rule rtranclp.rtrancl_into_rtrancl)
  note th = process_resolves_after_queued_items [OF wf, of JUndefined upload_resolved ?r 2]
  have "\<exists>w1. step\<^sup>*\<^sup>* (upload_pending, ?f) (w1, ?f)
      \<and> step (w1, ?f) (tick (w1\<lparr>ed := snd (getData JUndefined (ed w1))\<rparr>), Resolved ?r 2)
      \<and> 2 = clock w1
      \<and> ?r = fst (getData JUndefined (ed w1))
      \<and> (\<forall>d \<in> set (map deferred (getBlockQueuedItems (ed upload_pending))).
            \<exists>t'. t' < 2 \<and> promises w1 d = Fulfilled t' \<and> promises upload_resolved d = Fulfilled t')"
    by (rule mp [OF conjunct1 [OF th] run])
  then obtain w1 :: world where
    "\<forall>d \<in> set (map deferred (getBlockQueuedItems (ed upload_pending))).
        \<exists>t'. t' < 2 \<and> promises w1 d = Fulfilled t' \<and> promises upload_resolved d = Fulfilled t'"
    by (elim exE conjE)
  then have "\<exists>t'. t' < 2 \<and> promises upload_resolved 7 = Fulfilled t'"
    unfolding ds by auto
  moreover have "r_canSubmit (fst (getData JUndefined upload_done))"
    unfolding getData_fst getData_state
    by (simp add: upload_done_def querySelectorAll_def resolved_Cons resolved_Nil
        findBlockById_def bm_findBlockById_def getBlockQueuedItems_def block_saved_def
        one_upload_def controls_node_def text_node_def text_block_def)
  ultimately show ?thesis
    using wf upload_run p cb by simp
qed

end
